theory Spec2Isabelle
  imports Main "HOL-Library.Word"
begin

unbundle bit_operations_syntax

section \<open>Go runtime: panics, slices, UTF-8 decoding\<close>

text \<open>
  A Go panic ends the call without a result. Every operation of the model that can panic
  returns \<open>panic + 'a\<close>, with \<open>Inl\<close> for the panic: \<open>AssertionError\<close> is the
  explicit \<^verbatim>\<open>panic("Assertion error")\<close> of the source, \<open>IndexOutOfRange\<close> and
  \<open>SliceOutOfRange\<close> are the run-time panics of an index or slice expression,
  \<open>NilDereference\<close> that of a method call on a \<^verbatim>\<open>nil\<close> interface.
\<close>

datatype panic = AssertionError | IndexOutOfRange | SliceOutOfRange | NilDereference

definition bindP :: "panic + 'a \<Rightarrow> ('a \<Rightarrow> panic + 'b) \<Rightarrow> panic + 'b" where
  "bindP m f = (case m of Inl e \<Rightarrow> Inl e | Inr x \<Rightarrow> f x)"

text \<open>\<open>at xs i\<close> is the Go index expression \<^verbatim>\<open>xs[i]\<close> for a signed index.\<close>

definition at :: "'a list \<Rightarrow> int \<Rightarrow> panic + 'a" where
  "at xs i = (if 0 \<le> i \<and> i < int (length xs) then Inr (xs ! nat i) else Inl IndexOutOfRange)"

text \<open>\<open>put xs i v\<close> is the Go assignment \<^verbatim>\<open>xs[i] = v\<close>.\<close>

definition put :: "'a list \<Rightarrow> int \<Rightarrow> 'a \<Rightarrow> panic + 'a list" where
  "put xs i v = (if 0 \<le> i \<and> i < int (length xs) then Inr (xs[nat i := v]) else Inl IndexOutOfRange)"

type_synonym byte = "8 word"
type_synonym rune = "32 word"

text \<open>
  A Go string is a sequence of bytes. A rune is an \<^verbatim>\<open>int32\<close>: a 32-bit word read
  with \<open>sint\<close>.
\<close>

definition RuneError :: rune where
  "RuneError = 0xFFFD"

text \<open>
  The table \<^verbatim>\<open>first\<close> of Go's \<^verbatim>\<open>unicode/utf8\<close> gives for a lead byte the
  length of its sequence (the low three bits of the entry) and the range accepted for the
  second byte (\<^verbatim>\<open>acceptRanges\<close>, selected by the high four bits). \<open>utf8_size\<close> is 1
  for ASCII and 0 for a byte that cannot start a sequence.
\<close>

definition utf8_size :: "byte \<Rightarrow> nat" where
  "utf8_size b = (let n = unat b in
     if n < 0x80 then 1
     else if n < 0xC2 then 0
     else if n < 0xE0 then 2
     else if n < 0xF0 then 3
     else if n < 0xF5 then 4
     else 0)"

definition accept_lo :: "byte \<Rightarrow> nat" where
  "accept_lo b = (if b = 0xE0 then 0xA0 else if b = 0xF0 then 0x90 else 0x80)"

definition accept_hi :: "byte \<Rightarrow> nat" where
  "accept_hi b = (if b = 0xED then 0x9F else if b = 0xF4 then 0x8F else 0xBF)"

definition is_cont :: "byte \<Rightarrow> bool" where
  "is_cont b = (0x80 \<le> unat b \<and> unat b \<le> 0xBF)"

text \<open>
  \<^verbatim>\<open>utf8.DecodeRuneInString\<close>: the first rune of \<open>s\<close> and its width in bytes;
  \<open>(RuneError, 0)\<close> for the empty string and \<open>(RuneError, 1)\<close> for an ill-formed
  or truncated sequence.
\<close>

definition DecodeRuneInString :: "byte list \<Rightarrow> rune \<times> nat" where
  "DecodeRuneInString s =
    (if length s < 1 then (RuneError, 0)
     else let s0 = s ! 0; sz = utf8_size s0 in
       if unat s0 < 0x80 then (ucast s0, 1)
       else if sz = 0 then (RuneError, 1)
       else if length s < sz then (RuneError, 1)
       else let s1 = s ! 1 in
         if unat s1 < accept_lo s0 \<or> accept_hi s0 < unat s1 then (RuneError, 1)
         else if sz \<le> 2 then
           (push_bit 6 (ucast (s0 AND 0x1F)) OR ucast (s1 AND 0x3F), 2)
         else let s2 = s ! 2 in
           if \<not> is_cont s2 then (RuneError, 1)
           else if sz \<le> 3 then
             (push_bit 12 (ucast (s0 AND 0x0F)) OR push_bit 6 (ucast (s1 AND 0x3F))
                OR ucast (s2 AND 0x3F), 3)
           else let s3 = s ! 3 in
             if \<not> is_cont s3 then (RuneError, 1)
             else
               (push_bit 18 (ucast (s0 AND 0x07)) OR push_bit 12 (ucast (s1 AND 0x3F))
                  OR push_bit 6 (ucast (s2 AND 0x3F)) OR ucast (s3 AND 0x3F), 4))"

text \<open>\<^verbatim>\<open>utf8.RuneStart\<close>: the byte is not a continuation byte.\<close>

definition RuneStart :: "byte \<Rightarrow> bool" where
  "RuneStart b = (b AND 0xC0 \<noteq> 0x80)"

text \<open>
  The backwards scan of \<^verbatim>\<open>utf8.DecodeLastRuneInString\<close>,
  \<^verbatim>\<open>for start--; start >= lim; start-- { if RuneStart(s[start]) { break } }\<close>,
  entered after the first decrement: it returns the final value of \<^verbatim>\<open>start\<close>.
\<close>

function scan_start :: "byte list \<Rightarrow> int \<Rightarrow> int \<Rightarrow> int" where
  "scan_start s lim start =
     (if start \<ge> lim then
        (if RuneStart (s ! nat start) then start else scan_start s lim (start - 1))
      else start)"
  by pat_completeness auto
termination
  by (relation "measure (\<lambda>(s, lim, start). nat (start - lim + 1))") auto

declare scan_start.simps [simp del]

text \<open>
  \<^verbatim>\<open>utf8.DecodeLastRuneInString\<close>: the last rune of \<open>s\<close> and its width. It looks
  back at most \<^verbatim>\<open>UTFMax = 4\<close> bytes for the start of a rune and decodes forwards from
  there; the result counts only if that rune ends exactly at the end of \<open>s\<close>.
\<close>

definition DecodeLastRuneInString :: "byte list \<Rightarrow> rune \<times> nat" where
  "DecodeLastRuneInString s =
    (let end = int (length s) in
     if end = 0 then (RuneError, 0)
     else let start = end - 1; r = (ucast (s ! nat start) :: rune) in
       if unat (s ! nat start) < 0x80 then (r, 1)
       else let lim = (if end - 4 < 0 then 0 else end - 4);
                start1 = scan_start s lim (start - 1);
                start2 = (if start1 < 0 then 0 else start1);
                (r, size) = DecodeRuneInString (drop (nat start2) s)
            in if start2 + int size \<noteq> end then (RuneError, 1) else (r, size))"

section \<open>The string cursor\<close>

text \<open>
  \<^verbatim>\<open>StringCursor\<close>: a Go string and a byte offset into it. Positions are Go
  \<^verbatim>\<open>int\<close>s; no arithmetic on them leaves the range \<open>0 .. len(text)\<close>, so they are
  modelled as \<open>int\<close>.
\<close>

record StringCursor =
  "text" :: "byte list"
  position :: int

definition NewStringCursor :: "byte list \<Rightarrow> StringCursor" where
  "NewStringCursor t = \<lparr>text = t, position = 0\<rparr>"

definition Position :: "StringCursor \<Rightarrow> int" where
  "Position c = position c"

datatype seterr = PositionNegative | PositionBeyondEnd

text \<open>\<^verbatim>\<open>SetPosition\<close> returns the error (\<open>None\<close> for Go's \<^verbatim>\<open>nil\<close>) and the cursor.\<close>

definition SetPosition :: "StringCursor \<Rightarrow> int \<Rightarrow> seterr option \<times> StringCursor" where
  "SetPosition c p =
    (if p < 0 then (Some PositionNegative, c)
     else if p > int (length (text c)) then (Some PositionBeyondEnd, c)
     else (None, c\<lparr>position := p\<rparr>))"

text \<open>
  \<^verbatim>\<open>StringCursor.Next\<close>. The slice \<^verbatim>\<open>c.text[c.position:]\<close> panics for a
  negative position.
\<close>

definition cursorNext :: "StringCursor \<Rightarrow> panic + (rune \<times> bool \<times> StringCursor)" where
  "cursorNext c =
    (if position c \<ge> int (length (text c)) then Inr (- 1, False, c)
     else if position c < 0 then Inl SliceOutOfRange
     else let (r, size) = DecodeRuneInString (drop (nat (position c)) (text c))
          in Inr (r, True, c\<lparr>position := position c + int size\<rparr>))"

text \<open>
  \<^verbatim>\<open>StringCursor.Previous\<close>. The slice \<^verbatim>\<open>c.text[:c.position]\<close> panics for a
  position beyond the end.
\<close>

definition cursorPrevious :: "StringCursor \<Rightarrow> panic + (rune \<times> bool \<times> StringCursor)" where
  "cursorPrevious c =
    (if position c \<le> 0 then Inr (- 1, False, c)
     else if position c > int (length (text c)) then Inl SliceOutOfRange
     else let (r, size) = DecodeLastRuneInString (take (nat (position c)) (text c))
          in Inr (r, True, c\<lparr>position := position c - int size\<rparr>))"


lemma utf8_size_cases:
  "utf8_size b = 0 \<or> utf8_size b = 1 \<or> utf8_size b = 2 \<or> utf8_size b = 3 \<or> utf8_size b = 4"
  by (simp add: utf8_size_def Let_def)

lemma utf8_size_ascii: "utf8_size b = 1 \<longleftrightarrow> unat b < 0x80"
  by (simp add: utf8_size_def Let_def)

lemma RuneStart_nat:
  "\<forall>n\<in>set [0..<256]. RuneStart (of_nat n :: byte) = (\<not> is_cont (of_nat n))"
  by code_simp

lemma RuneStart_iff: "RuneStart b = (\<not> is_cont b)"
proof -
  have "unat b < 256" using unsigned_less [of b, where ?'a = nat] by simp
  then have "unat b \<in> set [0..<256]" by simp
  from RuneStart_nat [rule_format, OF this] show ?thesis by simp
qed



text \<open>
  \<open>mb_seq s\<close>: \<open>s\<close> starts with a well-formed sequence of two to four bytes, the case
  in which \<open>DecodeRuneInString\<close> returns a width above 1; \<open>mb_rune s\<close> is the rune it
  then returns.
\<close>

definition mb_seq :: "byte list \<Rightarrow> bool" where
  "mb_seq s = (let sz = utf8_size (s ! 0) in
     2 \<le> sz \<and> sz \<le> length s \<and>
     accept_lo (s ! 0) \<le> unat (s ! 1) \<and> unat (s ! 1) \<le> accept_hi (s ! 0) \<and>
     (3 \<le> sz \<longrightarrow> is_cont (s ! 2)) \<and> (4 \<le> sz \<longrightarrow> is_cont (s ! 3)))"

definition mb_rune :: "byte list \<Rightarrow> rune" where
  "mb_rune s = (let s0 = s ! 0; s1 = s ! 1; s2 = s ! 2; s3 = s ! 3; sz = utf8_size s0 in
     if sz \<le> 2 then push_bit 6 (ucast (s0 AND 0x1F)) OR ucast (s1 AND 0x3F)
     else if sz \<le> 3 then
       push_bit 12 (ucast (s0 AND 0x0F)) OR push_bit 6 (ucast (s1 AND 0x3F)) OR ucast (s2 AND 0x3F)
     else push_bit 18 (ucast (s0 AND 0x07)) OR push_bit 12 (ucast (s1 AND 0x3F))
            OR push_bit 6 (ucast (s2 AND 0x3F)) OR ucast (s3 AND 0x3F))"

lemma Decode_mb: "mb_seq s \<Longrightarrow> DecodeRuneInString s = (mb_rune s, utf8_size (s ! 0))"
  using utf8_size_cases [of "s ! 0"] utf8_size_ascii [of "s ! 0"]
  by (auto simp: mb_seq_def mb_rune_def DecodeRuneInString_def Let_def)

lemma Decode_not_mb:
  "\<not> mb_seq s \<Longrightarrow> s \<noteq> [] \<Longrightarrow>
   DecodeRuneInString s = (if unat (s ! 0) < 0x80 then ucast (s ! 0) else RuneError, 1)"
  using utf8_size_cases [of "s ! 0"] utf8_size_ascii [of "s ! 0"]
  by (auto simp: mb_seq_def DecodeRuneInString_def Let_def)

lemma mb_seq_takeI:
  assumes "mb_seq s" "utf8_size (s ! 0) \<le> m"
  shows "mb_seq (take m s) \<and> mb_rune (take m s) = mb_rune s"
proof -
  let ?sz = "utf8_size (s ! 0)"
  from assms have sz: "2 \<le> ?sz" "?sz \<le> length s" by (simp_all add: mb_seq_def Let_def)
  have nth: "\<And>i. i < ?sz \<Longrightarrow> take m s ! i = s ! i" using assms(2) by simp
  have n0: "take m s ! 0 = s ! 0" and n1: "take m s ! 1 = s ! 1" using nth sz by simp_all
  have n2: "3 \<le> ?sz \<Longrightarrow> take m s ! 2 = s ! 2" using nth by simp
  have n3: "4 \<le> ?sz \<Longrightarrow> take m s ! 3 = s ! 3" using nth by simp
  have "mb_seq (take m s)"
    using assms sz n2 n3 unfolding mb_seq_def Let_def n0 n1 by simp
  moreover have "mb_rune (take m s) = mb_rune s"
    using utf8_size_cases [of "s ! 0"] sz n2 n3 unfolding mb_rune_def Let_def n0 n1 by auto
  ultimately show ?thesis by simp
qed

lemma mb_seq_takeD:
  assumes "mb_seq (take m s)" "1 \<le> m"
  shows "mb_seq s"
proof -
  have n0: "take m s ! 0 = s ! 0" using assms(2) by simp
  let ?sz = "utf8_size (s ! 0)"
  from assms(1) have sz: "2 \<le> ?sz" "?sz \<le> length s" "?sz \<le> m"
    unfolding mb_seq_def Let_def n0 by simp_all
  have nth: "\<And>i. i < ?sz \<Longrightarrow> take m s ! i = s ! i" using sz(3) by simp
  have n1: "take m s ! 1 = s ! 1" using nth sz by simp
  have n2: "3 \<le> ?sz \<Longrightarrow> take m s ! 2 = s ! 2" using nth by simp
  have n3: "4 \<le> ?sz \<Longrightarrow> take m s ! 3 = s ! 3" using nth by simp
  show ?thesis
    using assms(1) sz n2 n3 unfolding mb_seq_def Let_def n0 n1 by auto
qed

lemma Decode_take:
  assumes "snd (DecodeRuneInString s) \<le> m"
  shows "DecodeRuneInString (take m s) = DecodeRuneInString s"
proof (cases "s = []")
  case True then show ?thesis by simp
next
  case ne: False
  show ?thesis
  proof (cases "mb_seq s")
    case True
    with assms have le: "utf8_size (s ! 0) \<le> m" by (simp add: Decode_mb)
    from True have two: "2 \<le> utf8_size (s ! 0)" by (simp add: mb_seq_def Let_def)
    have "mb_seq (take m s) \<and> mb_rune (take m s) = mb_rune s" using True le by (rule mb_seq_takeI)
    moreover have "take m s ! 0 = s ! 0" using le two by simp
    ultimately show ?thesis using True by (simp add: Decode_mb)
  next
    case False
    with assms ne have m1: "1 \<le> m" by (simp add: Decode_not_mb)
    have "\<not> mb_seq (take m s)" using False m1 mb_seq_takeD by blast
    moreover have "take m s \<noteq> []" using ne m1 by (cases s) auto
    ultimately show ?thesis using False ne m1 by (simp add: Decode_not_mb)
  qed
qed

lemma scan_start_bounds: "lim - 1 \<le> start \<Longrightarrow> lim - 1 \<le> scan_start s lim start \<and> scan_start s lim start \<le> start"
proof (induction s lim start rule: scan_start.induct)
  case (1 s lim start)
  show ?case
  proof (cases "start \<ge> lim \<and> \<not> RuneStart (s ! nat start)")
    case True
    then have "lim - 1 \<le> scan_start s lim (start - 1) \<and> scan_start s lim (start - 1) \<le> start - 1"
      using "1.IH" by simp
    then show ?thesis using True by (subst scan_start.simps, subst (2) scan_start.simps) auto
  next
    case False
    then show ?thesis using "1.prems" by (subst scan_start.simps, subst (2) scan_start.simps) auto
  qed
qed

lemma scan_start_found:
  "lim \<le> k \<Longrightarrow> k \<le> start \<Longrightarrow> RuneStart (s ! nat k) \<Longrightarrow>
   (\<forall>j. k < j \<and> j \<le> start \<longrightarrow> \<not> RuneStart (s ! nat j)) \<Longrightarrow> scan_start s lim start = k"
proof (induction s lim start rule: scan_start.induct)
  case (1 s lim start)
  show ?case
  proof (cases "k = start")
    case True
    then show ?thesis using "1.prems" by (subst scan_start.simps) simp
  next
    case False
    with "1.prems" have lt: "k < start" by simp
    then have ns: "\<not> RuneStart (s ! nat start)" using "1.prems" by simp
    have "scan_start s lim (start - 1) = k"
      using "1.IH" "1.prems" lt ns by simp
    then show ?thesis using "1.prems" lt ns by (subst scan_start.simps) simp
  qed
qed


lemma DecodeRuneInString_size_pos: "s \<noteq> [] \<Longrightarrow> 0 < snd (DecodeRuneInString s)"
  by (cases s) (simp_all add: DecodeRuneInString_def Let_def)

lemma DecodeRuneInString_size_le: "snd (DecodeRuneInString s) \<le> length s"
proof (cases "s = []")
  case True then show ?thesis by (simp add: DecodeRuneInString_def)
next
  case False
  show ?thesis
  proof (cases "mb_seq s")
    case True
    then show ?thesis by (simp add: Decode_mb mb_seq_def Let_def)
  next
    case nmb: False
    then show ?thesis using False by (cases s) (simp_all add: Decode_not_mb)
  qed
qed

text \<open>
  The code-point boundaries of a string: the offsets at which decoding from the start
  of the string begins a rune, and the end of the string (what Go's
  \<^verbatim>\<open>for i := range s\<close> visits).
\<close>

function rune_boundary :: "byte list \<Rightarrow> nat \<Rightarrow> bool" where
  "rune_boundary s p =
     (if p = 0 then True
      else if s = [] then False
      else if p < snd (DecodeRuneInString s) then False
      else rune_boundary (drop (snd (DecodeRuneInString s)) s) (p - snd (DecodeRuneInString s)))"
  by pat_completeness auto
termination
  by (relation "measure (\<lambda>(s, p). p)") (auto simp: DecodeRuneInString_size_pos)

declare rune_boundary.simps [simp del]




lemma mb_seq_cont: "mb_seq s \<Longrightarrow> 0 < i \<Longrightarrow> i < utf8_size (s ! 0) \<Longrightarrow> is_cont (s ! i)"
proof -
  assume a: "mb_seq s" "0 < i" "i < utf8_size (s ! 0)"
  have c1: "is_cont (s ! 1)"
    using a(1) by (auto simp: mb_seq_def Let_def is_cont_def accept_lo_def accept_hi_def split: if_splits)
  from a utf8_size_cases [of "s ! 0"] have "i = 1 \<or> i = 2 \<or> i = 3" by auto
  then show ?thesis using a c1 by (auto simp: mb_seq_def Let_def)
qed

lemma mb_seq_lead: "mb_seq s \<Longrightarrow> \<not> is_cont (s ! 0) \<and> \<not> unat (s ! 0) < 0x80"
  by (auto simp: mb_seq_def Let_def utf8_size_def is_cont_def split: if_splits)

lemma mb_seq_nonempty: "mb_seq s \<Longrightarrow> s \<noteq> []"
  by (auto simp: mb_seq_def Let_def)

lemma rune_boundary_le: "rune_boundary s p \<Longrightarrow> p \<le> length s"
proof (induction s p rule: rune_boundary.induct)
  case (1 s p)
  show ?case
  proof (cases "p = 0")
    case True then show ?thesis by simp
  next
    case False
    let ?n = "snd (DecodeRuneInString s)"
    from "1.prems" False have ne: "s \<noteq> []" and ge: "\<not> p < ?n"
      and rb: "rune_boundary (drop ?n s) (p - ?n)"
      by (subst (asm) rune_boundary.simps, simp split: if_splits)+
    from "1.IH" [OF False ne ge rb] have "p - ?n \<le> length s - ?n" by simp
    then show ?thesis using ge DecodeRuneInString_size_le [of s] by linarith
  qed
qed

lemma boundary_not_inside:
  "rune_boundary t q \<Longrightarrow> mb_seq (drop k t) \<Longrightarrow> k < q \<Longrightarrow>
   q < k + utf8_size (drop k t ! 0) \<Longrightarrow> False"
proof (induction t q arbitrary: k rule: rune_boundary.induct)
  case (1 s p)
  let ?n = "snd (DecodeRuneInString s)"
  from "1.prems"(3) have p0: "p \<noteq> 0" by simp
  from "1.prems"(1) p0 have ne: "s \<noteq> []" and ge: "\<not> p < ?n"
    and rb: "rune_boundary (drop ?n s) (p - ?n)"
    by (subst (asm) rune_boundary.simps, simp split: if_splits)+
  have klen: "k < length s" using mb_seq_nonempty [OF "1.prems"(2)] by simp
  consider "k = 0" | "0 < k" "k < ?n" | "?n \<le> k" by linarith
  then show ?case
  proof cases
    case 1
    then have "mb_seq s" using "1.prems"(2) by simp
    then have "?n = utf8_size (s ! 0)" by (simp add: Decode_mb)
    then show False using "1.prems"(4) 1 ge by simp
  next
    case 2
    then have "mb_seq s" using Decode_not_mb [of s] ne by (cases "mb_seq s") auto
    then have "is_cont (s ! k)" using 2 mb_seq_cont [of s k] by (simp add: Decode_mb)
    moreover have "\<not> is_cont (drop k s ! 0)" using mb_seq_lead [OF "1.prems"(2)] by simp
    ultimately show False using klen by simp
  next
    case 3
    have d: "drop (k - ?n) (drop ?n s) = drop k s" using 3 by simp
    have "k - ?n < p - ?n" using "1.prems"(3) 3 by linarith
    moreover have "p - ?n < k - ?n + utf8_size (drop k s ! 0)" using "1.prems"(4) 3 ge by linarith
    ultimately show False
      using "1.IH" [OF p0 ne ge rb, of "k - ?n"] "1.prems"(2) unfolding d by simp
  qed
qed

lemma boundary_pred:
  "rune_boundary t p \<Longrightarrow> 0 < p \<Longrightarrow>
   \<exists>q. rune_boundary t q \<and> q < length t \<and> q + snd (DecodeRuneInString (drop q t)) = p"
proof (induction t p rule: rune_boundary.induct)
  case (1 s p)
  let ?n = "snd (DecodeRuneInString s)"
  from "1.prems" have p0: "p \<noteq> 0" by simp
  from "1.prems"(1) p0 have ne: "s \<noteq> []" and ge: "\<not> p < ?n"
    and rb: "rune_boundary (drop ?n s) (p - ?n)"
    by (subst (asm) rune_boundary.simps, simp split: if_splits)+
  have npos: "0 < ?n" using ne by (rule DecodeRuneInString_size_pos)
  show ?case
  proof (cases "p = ?n")
    case True
    have "rune_boundary s 0" by (subst rune_boundary.simps) simp
    then show ?thesis using True ne by (intro exI [of _ 0]) simp
  next
    case False
    then have "0 < p - ?n" using ge by simp
    from "1.IH" [OF p0 ne ge rb this] obtain q where
      q: "rune_boundary (drop ?n s) q" "q < length (drop ?n s)"
         "q + snd (DecodeRuneInString (drop q (drop ?n s))) = p - ?n" by blast
    have "rune_boundary s (?n + q)"
      using q(1) npos ne by (subst rune_boundary.simps) simp
    moreover have "?n + q < length s" using q(2) by simp
    moreover have "?n + q + snd (DecodeRuneInString (drop (?n + q) s)) = p"
      using q(3) ge by (simp add: add.commute)
    ultimately show ?thesis by blast
  qed
qed




lemma DecodeLast_mb:
  assumes mb: "mb_seq (drop q t)"
  shows "DecodeLastRuneInString (take (q + utf8_size (drop q t ! 0)) t) = DecodeRuneInString (drop q t)"
proof -
  define u where "u = drop q t"
  define sz where "sz = utf8_size (u ! 0)"
  define L where "L = take (q + sz) t"
  from mb have mbu: "mb_seq u" by (simp add: u_def)
  from mbu have sz: "2 \<le> sz" "sz \<le> length u" by (simp_all add: mb_seq_def Let_def sz_def)
  have sz4: "sz \<le> 4" using utf8_size_cases [of "u ! 0"] by (auto simp: sz_def)
  have fit: "q + sz \<le> length t" using sz by (simp add: u_def)
  have len: "length L = q + sz" using fit by (simp add: L_def)
  have Lnth: "\<And>i. i < sz \<Longrightarrow> L ! (q + i) = u ! i" using fit by (simp add: L_def u_def)
  have "nat (int (length L) - 1) = q + (sz - 1)" using len sz by simp
  then have last: "L ! nat (int (length L) - 1) = u ! (sz - 1)"
    using Lnth [of "sz - 1"] sz by simp
  have lastc: "is_cont (u ! (sz - 1))" using mb_seq_cont [OF mbu, of "sz - 1"] sz by (simp add: sz_def)
  then have nascii: "\<not> unat (L ! nat (int (length L) - 1)) < 0x80"
    unfolding last by (simp add: is_cont_def)
  define lim :: int where "lim = (if int (length L) - 4 < 0 then 0 else int (length L) - 4)"
  have limq: "lim \<le> int q" using sz4 len by (simp add: lim_def)
  have rs: "RuneStart (L ! nat (int q))"
    using Lnth [of 0] sz mb_seq_lead [OF mbu] by (simp add: RuneStart_iff)
  have nrs: "\<forall>j. int q < j \<and> j \<le> int (length L) - 1 - 1 \<longrightarrow> \<not> RuneStart (L ! nat j)"
  proof (intro allI impI)
    fix j :: int assume j: "int q < j \<and> j \<le> int (length L) - 1 - 1"
    define i where "i = nat j - q"
    have i: "0 < i" "i < sz" "nat j = q + i" using j len by (auto simp: i_def)
    have "is_cont (u ! i)" using mb_seq_cont [OF mbu i(1)] i(2) by (simp add: sz_def)
    then show "\<not> RuneStart (L ! nat j)" using Lnth [OF i(2)] i(3) by (simp add: RuneStart_iff)
  qed
  have scan: "scan_start L lim (int (length L) - 1 - 1) = int q"
    using limq sz len rs nrs by (intro scan_start_found) auto
  have dec: "DecodeRuneInString (drop q L) = DecodeRuneInString u"
  proof -
    have "drop q L = take sz u" by (simp add: drop_take L_def u_def)
    moreover have "snd (DecodeRuneInString u) \<le> sz" using mbu by (simp add: Decode_mb sz_def)
    ultimately show ?thesis by (simp add: Decode_take)
  qed
  have ne: "int (length L) \<noteq> 0" using len sz by simp
  have "DecodeLastRuneInString L = DecodeRuneInString u"
    unfolding DecodeLastRuneInString_def Let_def
    using ne nascii scan [unfolded lim_def] dec len mbu
    by (simp add: Decode_mb sz_def)
  then show ?thesis by (simp only: L_def sz_def u_def)
qed




lemma DecodeLast_single:
  assumes rb: "rune_boundary t q" and qlt: "q < length t" and nmb: "\<not> mb_seq (drop q t)"
  shows "DecodeLastRuneInString (take (q + 1) t) = DecodeRuneInString (drop q t)"
proof -
  define u where "u = drop q t"
  define L where "L = take (q + 1) t"
  have une: "u \<noteq> []" using qlt by (simp add: u_def)
  have u0: "u ! 0 = t ! q" using qlt by (simp add: u_def)
  have len: "length L = q + 1" using qlt by (simp add: L_def)
  have last: "L ! nat (int (length L) - 1) = t ! q" using len qlt by (simp add: L_def)
  have dec: "DecodeRuneInString u = (if unat (t ! q) < 0x80 then ucast (t ! q) else RuneError, 1)"
    using Decode_not_mb [of u] nmb une u0 by (simp add: u_def)
  show ?thesis
  proof (cases "unat (t ! q) < 0x80")
    case True
    then have "DecodeLastRuneInString L = (ucast (t ! q), 1)"
      unfolding DecodeLastRuneInString_def Let_def using len last by simp
    then show ?thesis using dec True by (simp add: L_def u_def)
  next
    case False
    define lim :: int where "lim = (if int (length L) - 4 < 0 then 0 else int (length L) - 4)"
    define start1 where "start1 = scan_start L lim (int (length L) - 1 - 1)"
    define start2 where "start2 = (if start1 < 0 then 0 else start1)"
    have "lim - 1 \<le> int (length L) - 1 - 1" using len by (simp add: lim_def)
    from scan_start_bounds [OF this, of L]
    have s1: "lim - 1 \<le> start1" "start1 \<le> int q - 1" using len by (simp_all add: start1_def)
    have s2: "0 \<le> start2" "start2 \<le> int q" using s1 by (auto simp: start2_def)
    have s2q: "start2 = int q \<Longrightarrow> q = 0" using s1 by (auto simp: start2_def split: if_splits)
    define k where "k = nat start2"
    have k: "k \<le> q" "int k = start2" using s2 by (simp_all add: k_def)
    have res: "DecodeLastRuneInString L =
       (if start2 + int (snd (DecodeRuneInString (drop k L))) \<noteq> int (length L) then (RuneError, 1)
        else DecodeRuneInString (drop k L))"
      unfolding DecodeLastRuneInString_def Let_def k_def start2_def start1_def lim_def
      using len last False
      by (simp add: split_beta)
    show ?thesis
    proof (cases "start2 + int (snd (DecodeRuneInString (drop k L))) \<noteq> int (length L)")
      case True
      then show ?thesis using res dec False by (simp add: L_def u_def)
    next
      case eq: False
      show ?thesis
      proof (cases "k = q")
        case True
        have "drop q L = take 1 u" by (simp add: L_def u_def drop_take)
        moreover have "snd (DecodeRuneInString u) \<le> 1" using dec by simp
        ultimately have "DecodeRuneInString (drop q L) = DecodeRuneInString u"
          by (simp add: Decode_take)
        then show ?thesis using res eq True by (simp add: L_def u_def)
      next
        case kq: False
        then have klt: "k < q" using k by simp
        define n where "n = snd (DecodeRuneInString (drop k L))"
        have n: "k + n = q + 1" using eq k len by (simp add: n_def)
        then have n2: "2 \<le> n" using klt by simp
        have "Suc q - k = n" using n by simp
        then have dL: "drop k L = take n (drop k t)"
          by (simp add: L_def drop_take)
        have nn: "snd (DecodeRuneInString (take n (drop k t))) = n"
          by (subst dL [symmetric]) (rule n_def [symmetric])
        have mbL: "mb_seq (take n (drop k t))"
        proof (rule ccontr)
          assume a: "\<not> mb_seq (take n (drop k t))"
          have "take n (drop k t) \<noteq> []" using n2 klt qlt by simp
          from Decode_not_mb [OF a this] nn have "n = 1" by simp
          then show False using n2 by simp
        qed
        then have mbt: "mb_seq (drop k t)" using mb_seq_takeD n2 by (metis le_trans one_le_numeral)
        have "take n (drop k t) ! 0 = drop k t ! 0" using n2 by simp
        then have "n = utf8_size (drop k t ! 0)"
          using Decode_mb [OF mbL] nn by simp
        then have "q < k + utf8_size (drop k t ! 0)" using n by simp
        from boundary_not_inside [OF rb mbt klt this] show ?thesis ..
      qed
    qed
  qed
qed

lemma DecodeLast_boundary:
  assumes rb: "rune_boundary t q" and qlt: "q < length t"
  shows "DecodeLastRuneInString (take (q + snd (DecodeRuneInString (drop q t))) t)
         = DecodeRuneInString (drop q t)"
proof (cases "mb_seq (drop q t)")
  case True
  then show ?thesis using DecodeLast_mb [OF True] by (simp add: Decode_mb)
next
  case False
  have "drop q t \<noteq> []" using qlt by simp
  then have "snd (DecodeRuneInString (drop q t)) = 1" using False by (simp add: Decode_not_mb)
  then show ?thesis using DecodeLast_single [OF rb qlt False] by simp
qed

lemma cursorNext_then_Previous:
  assumes p0: "0 \<le> position c" and rb: "rune_boundary (text c) (nat (position c))"
    and lt: "position c < int (length (text c))"
  shows "\<exists>r c1. cursorNext c = Inr (r, True, c1) \<and> cursorPrevious c1 = Inr (r, True, c)"
proof -
  define q where "q = nat (position c)"
  define r where "r = fst (DecodeRuneInString (drop q (text c)))"
  define n where "n = snd (DecodeRuneInString (drop q (text c)))"
  have qlt: "q < length (text c)" using p0 lt by (simp add: q_def)
  have dec: "DecodeRuneInString (drop q (text c)) = (r, n)" by (simp add: r_def n_def)
  have npos: "0 < n" unfolding n_def using qlt by (intro DecodeRuneInString_size_pos) simp
  have nle: "q + n \<le> length (text c)"
    using DecodeRuneInString_size_le [of "drop q (text c)"] qlt by (simp add: n_def)
  define c1 where "c1 = c\<lparr>position := position c + int n\<rparr>"
  have nx: "cursorNext c = Inr (r, True, c1)"
    using p0 lt dec by (simp add: cursorNext_def q_def [symmetric] c1_def)
  have pc: "position c = int q" using p0 by (simp add: q_def)
  have pos1: "position c1 = int (q + n)" "text c1 = text c" by (simp_all add: c1_def pc)
  have "DecodeLastRuneInString (take (q + n) (text c)) = DecodeRuneInString (drop q (text c))"
    unfolding n_def by (rule DecodeLast_boundary [OF rb [folded q_def] qlt])
  then have last: "DecodeLastRuneInString (take (q + n) (text c)) = (r, n)"
    using dec by simp
  have restore: "c1\<lparr>position := int (q + n) - int n\<rparr> = c" by (simp add: c1_def pc)
  have "cursorPrevious c1 = Inr (r, True, c)"
    unfolding cursorPrevious_def pos1 using npos nle last restore by (simp add: nat_int_add)
  with nx show ?thesis by blast
qed

lemma cursorPrevious_then_Next:
  assumes p0: "0 < position c" and rb: "rune_boundary (text c) (nat (position c))"
  shows "\<exists>r c1. cursorPrevious c = Inr (r, True, c1) \<and> cursorNext c1 = Inr (r, True, c)"
proof -
  define p where "p = nat (position c)"
  have ppos: "0 < p" and pc: "position c = int p" using p0 by (simp_all add: p_def)
  have ple: "p \<le> length (text c)" using rune_boundary_le [OF rb] by (simp add: p_def)
  from boundary_pred [OF rb [folded p_def] ppos] obtain q where
    q: "rune_boundary (text c) q" "q < length (text c)"
       "q + snd (DecodeRuneInString (drop q (text c))) = p" by blast
  define r where "r = fst (DecodeRuneInString (drop q (text c)))"
  define n where "n = snd (DecodeRuneInString (drop q (text c)))"
  have dec: "DecodeRuneInString (drop q (text c)) = (r, n)" by (simp add: r_def n_def)
  have qn: "q + n = p" using q(3) by (simp add: n_def)
  have last: "DecodeLastRuneInString (take p (text c)) = (r, n)"
    using DecodeLast_boundary [OF q(1) q(2)] dec q(3) by simp
  define c1 where "c1 = c\<lparr>position := position c - int n\<rparr>"
  have pv: "cursorPrevious c = Inr (r, True, c1)"
    using p0 ple last pc by (simp add: cursorPrevious_def c1_def p_def [symmetric])
  have pos1: "position c1 = int q" "text c1 = text c" using qn pc by (simp_all add: c1_def)
  have restore: "c1\<lparr>position := int q + int n\<rparr> = c" using qn pc by (simp add: c1_def)
  have "cursorNext c1 = Inr (r, True, c)"
    unfolding cursorNext_def pos1 using q(2) dec restore by simp
  with pv show ?thesis by blast
qed

section \<open>Claims about the string cursor\<close>

text \<open>
  C5 (as amended). \<open>SetPosition\<close> checks the range only: it fails exactly when
  \<open>p < 0\<close> or \<open>p > len(text)\<close>, whether or not \<open>p\<close> lies on a code-point boundary.
  The end-of-text position \<open>len(text)\<close> succeeds. On success the position becomes
  \<open>p\<close>; on failure the cursor is unchanged.
\<close>

theorem SetPosition_checks_range_only:
  "(fst (SetPosition c p) = None \<longleftrightarrow> 0 \<le> p \<and> p \<le> int (length (text c))) \<and>
   (fst (SetPosition c p) = None \<longrightarrow> snd (SetPosition c p) = c\<lparr>position := p\<rparr>) \<and>
   (fst (SetPosition c p) \<noteq> None \<longrightarrow> snd (SetPosition c p) = c) \<and>
   fst (SetPosition c (int (length (text c)))) = None"
  by (simp add: SetPosition_def)

theorem SetPosition_checks_range_only_witness:
  "fst (SetPosition \<lparr>text = [0x61, 0x62], position = 0\<rparr> 2) = None \<and>
   snd (SetPosition \<lparr>text = [0x61, 0x62], position = 0\<rparr> 2) = \<lparr>text = [0x61, 0x62], position = 2\<rparr> \<and>
   fst (SetPosition \<lparr>text = [0x61, 0x62], position = 0\<rparr> 3) \<noteq> None \<and>
   snd (SetPosition \<lparr>text = [0x61, 0x62], position = 0\<rparr> 3) = \<lparr>text = [0x61, 0x62], position = 0\<rparr>"
  using SetPosition_checks_range_only [of "\<lparr>text = [0x61, 0x62], position = 0\<rparr>" 2]
    SetPosition_checks_range_only [of "\<lparr>text = [0x61, 0x62], position = 0\<rparr>" 3]
  by simp

text \<open>
  C5 as stated fails: in the two-byte string \<open>C3 A9\<close> (one rune, U+00E9) offset 1
  is inside the rune, and \<open>SetPosition\<close> accepts it.
\<close>

theorem SetPosition_accepts_mid_rune:
  "\<not> rune_boundary [0xC3, 0xA9] 1 \<and>
   SetPosition (NewStringCursor [0xC3, 0xA9]) 1 = (None, \<lparr>text = [0xC3, 0xA9], position = 1\<rparr>)"
  by (simp add: rune_boundary.simps DecodeRuneInString_def utf8_size_def accept_lo_def
        accept_hi_def SetPosition_def NewStringCursor_def)

text \<open>
  C9. For a cursor on a code-point boundary: if it is not at the end of the text,
  \<open>Next\<close> followed by \<open>Previous\<close> yields the same rune twice and restores the
  cursor; if it is not at the start, \<open>Previous\<close> followed by \<open>Next\<close> does.
\<close>

theorem cursor_Next_Previous_roundtrip:
  assumes "0 \<le> position c" and "rune_boundary (text c) (nat (position c))"
  shows "(position c < int (length (text c)) \<longrightarrow>
            (\<exists>r c1. cursorNext c = Inr (r, True, c1) \<and> cursorPrevious c1 = Inr (r, True, c))) \<and>
         (0 < position c \<longrightarrow>
            (\<exists>r c1. cursorPrevious c = Inr (r, True, c1) \<and> cursorNext c1 = Inr (r, True, c)))"
  using assms cursorNext_then_Previous [of c] cursorPrevious_then_Next [of c] by blast

theorem cursor_Next_Previous_roundtrip_witness:
  "(\<exists>r c1. cursorNext \<lparr>text = [0xC3, 0xA9, 0x41], position = 2\<rparr> = Inr (r, True, c1) \<and>
      cursorPrevious c1 = Inr (r, True, \<lparr>text = [0xC3, 0xA9, 0x41], position = 2\<rparr>)) \<and>
   (\<exists>r c1. cursorPrevious \<lparr>text = [0xC3, 0xA9, 0x41], position = 2\<rparr> = Inr (r, True, c1) \<and>
      cursorNext c1 = Inr (r, True, \<lparr>text = [0xC3, 0xA9, 0x41], position = 2\<rparr>))"
proof -
  have b: "rune_boundary [0xC3, 0xA9, 0x41] (nat 2)"
    by (simp add: rune_boundary.simps DecodeRuneInString_def utf8_size_def accept_lo_def
          accept_hi_def)
  show ?thesis
    using cursor_Next_Previous_roundtrip [of "\<lparr>text = [0xC3, 0xA9, 0x41], position = 2\<rparr>"] b
    by simp
qed

section \<open>The code-point trie\<close>

text \<open>
  \<^verbatim>\<open>ucpTrie\<close>. \<^verbatim>\<open>trieType\<close> and \<^verbatim>\<open>valueWidth\<close> are \<^verbatim>\<open>uint8\<close> enumerations,
  \<^verbatim>\<open>dataLength\<close> and \<^verbatim>\<open>highStart\<close> are \<^verbatim>\<open>int32\<close> (read with \<open>sint\<close>).
\<close>

record ucpTrie =
  trieType :: "8 word"
  valueWidth :: "8 word"
  dataLength :: "32 word"
  index3NullOffset :: "16 word"
  dataNullOffset :: "16 word"
  highStart :: "32 word"
  shifted12HighStart :: "32 word"
  nullValueOffset :: "32 word"
  index :: "16 word list"
  data8 :: "8 word list"
  data16 :: "16 word list"
  data32 :: "32 word list"
  nullValue :: "32 word"

definition ucpTrieTypeFast :: "8 word" where "ucpTrieTypeFast = 0"
definition ucpTrieTypeSmall :: "8 word" where "ucpTrieTypeSmall = 1"

definition ucpTrieValueWidth16 :: "8 word" where "ucpTrieValueWidth16 = 0"
definition ucpTrieValueWidth32 :: "8 word" where "ucpTrieValueWidth32 = 1"
definition ucpTrieValueWidth8 :: "8 word" where "ucpTrieValueWidth8 = 2"

text \<open>The internal constants. Shift amounts are naturals, the others \<^verbatim>\<open>int32\<close>.\<close>

definition ucpTrieFastShift :: nat where "ucpTrieFastShift = 6"
definition ucpTrieShift3 :: nat where "ucpTrieShift3 = 4"
definition ucpTrieShift2 :: nat where "ucpTrieShift2 = 5 + ucpTrieShift3"
definition ucpTrieShift1 :: nat where "ucpTrieShift1 = 5 + ucpTrieShift2"
definition ucpTrieShift1Minus2 :: nat where "ucpTrieShift1Minus2 = ucpTrieShift1 - ucpTrieShift2"
definition ucpTrieShift2Minus3 :: nat where "ucpTrieShift2Minus3 = ucpTrieShift2 - ucpTrieShift3"

definition ucpTrieSmallLimit :: "32 word" where "ucpTrieSmallLimit = 0x1000"
definition ucpTrieSmallIndexLength :: "32 word" where
  "ucpTrieSmallIndexLength = signed_drop_bit ucpTrieFastShift ucpTrieSmallLimit"
definition ucpTrieFastDataBlockLength :: "32 word" where
  "ucpTrieFastDataBlockLength = push_bit ucpTrieFastShift 1"
definition ucpTrieFastDataMask :: "32 word" where
  "ucpTrieFastDataMask = ucpTrieFastDataBlockLength - 1"
definition ucpTrieHighValueNegDataOffset :: "32 word" where "ucpTrieHighValueNegDataOffset = 2"
definition ucpTrieErrorValueNegDataOffset :: "32 word" where "ucpTrieErrorValueNegDataOffset = 1"
definition ucpTrieBmpIndexLength :: "32 word" where
  "ucpTrieBmpIndexLength = signed_drop_bit ucpTrieFastShift 0x10000"
definition ucpTrieOmittedBmpIndex1Length :: "32 word" where
  "ucpTrieOmittedBmpIndex1Length = signed_drop_bit ucpTrieShift1 0x10000"
definition ucpTrieIndex2BlockLength :: "32 word" where
  "ucpTrieIndex2BlockLength = push_bit ucpTrieShift1Minus2 1"
definition ucpTrieIndex3BlockLength :: "32 word" where
  "ucpTrieIndex3BlockLength = push_bit ucpTrieShift2Minus3 1"
definition ucpTrieIndex2Mask :: "32 word" where "ucpTrieIndex2Mask = ucpTrieIndex2BlockLength - 1"
definition ucpTrieIndex3Mask :: "32 word" where "ucpTrieIndex3Mask = ucpTrieIndex3BlockLength - 1"
definition ucpTrieSmallDataBlockLength :: "32 word" where
  "ucpTrieSmallDataBlockLength = push_bit ucpTrieShift3 1"
definition ucpTrieSmallDataMask :: "32 word" where
  "ucpTrieSmallDataMask = ucpTrieSmallDataBlockLength - 1"

lemmas ucpTrie_consts =
  ucpTrieTypeFast_def ucpTrieTypeSmall_def ucpTrieValueWidth16_def ucpTrieValueWidth32_def
  ucpTrieValueWidth8_def ucpTrieFastShift_def ucpTrieShift3_def ucpTrieShift2_def
  ucpTrieShift1_def ucpTrieShift1Minus2_def ucpTrieShift2Minus3_def ucpTrieSmallLimit_def
  ucpTrieSmallIndexLength_def ucpTrieFastDataBlockLength_def ucpTrieFastDataMask_def
  ucpTrieHighValueNegDataOffset_def ucpTrieErrorValueNegDataOffset_def
  ucpTrieBmpIndexLength_def ucpTrieOmittedBmpIndex1Length_def ucpTrieIndex2BlockLength_def
  ucpTrieIndex3BlockLength_def ucpTrieIndex2Mask_def ucpTrieIndex3Mask_def
  ucpTrieSmallDataBlockLength_def ucpTrieSmallDataMask_def

text \<open>
  \<^verbatim>\<open>internalSmallIndex\<close>. \<^verbatim>\<open>>>\<close> on an \<^verbatim>\<open>int32\<close> is the arithmetic shift
  \<open>signed_drop_bit\<close>; comparisons are signed (\<open>\<le>s\<close>); an index expression reads its
  \<^verbatim>\<open>int32\<close> index with \<open>sint\<close> and panics out of range.
\<close>

definition internalSmallIndex :: "ucpTrie \<Rightarrow> rune \<Rightarrow> panic + 32 word" where
  "internalSmallIndex t codePoint =
    (let i1 = signed_drop_bit ucpTrieShift1 codePoint in
     bindP
       (if trieType t = ucpTrieTypeFast then
          (if codePoint \<le>s 0xffff \<or> highStart t \<le>s codePoint then Inl AssertionError
           else Inr (i1 + (ucpTrieBmpIndexLength - ucpTrieOmittedBmpIndex1Length)))
        else
          (if highStart t \<le>s codePoint \<or> highStart t \<le>s ucpTrieSmallLimit
           then Inl AssertionError
           else Inr (i1 + ucpTrieSmallIndexLength)))
       (\<lambda>i1.
     bindP (at (index t) (sint i1)) (\<lambda>e1.
     bindP (at (index t)
              (sint (ucast e1 + (signed_drop_bit ucpTrieShift2 codePoint AND ucpTrieIndex2Mask))))
       (\<lambda>e2.
     let i3Block = (ucast e2 :: 32 word);
         i3 = signed_drop_bit ucpTrieShift3 codePoint AND ucpTrieIndex3Mask
     in
     bindP
       (if i3Block AND 0x8000 = 0 then
          bindP (at (index t) (sint (i3Block + i3))) (\<lambda>e. Inr (ucast e))
        else
          (let i3Block1 = (i3Block AND 0x7fff) + (i3 AND NOT 7) + signed_drop_bit 3 i3;
               i3a = i3 AND 7
           in
           bindP (at (index t) (sint i3Block1)) (\<lambda>e.
           let dataBlock = push_bit (unat (2 + 2 * i3a)) (ucast e :: 32 word) AND 0x30000;
               i3Block2 = i3Block1 + 1
           in
           bindP (at (index t) (sint (i3Block2 + i3a))) (\<lambda>e'.
           Inr (dataBlock OR ucast e')))))
       (\<lambda>dataBlock. Inr (dataBlock + (codePoint AND ucpTrieSmallDataMask)))))))"

definition fastIndex :: "ucpTrie \<Rightarrow> rune \<Rightarrow> panic + 32 word" where
  "fastIndex t codePoint =
    bindP (at (index t) (sint (signed_drop_bit ucpTrieFastShift codePoint))) (\<lambda>e.
    Inr (ucast e + (codePoint AND ucpTrieFastDataMask)))"

definition smallIndex :: "ucpTrie \<Rightarrow> rune \<Rightarrow> panic + 32 word" where
  "smallIndex t codePoint =
    (if highStart t \<le>s codePoint then Inr (dataLength t - ucpTrieHighValueNegDataOffset)
     else internalSmallIndex t codePoint)"

definition codePointIndex :: "ucpTrie \<Rightarrow> 32 word \<Rightarrow> rune \<Rightarrow> panic + 32 word" where
  "codePointIndex t fastMax codePoint =
    (if codePoint \<le>s fastMax then fastIndex t codePoint
     else if codePoint \<le>s 0x10ffff then smallIndex t codePoint
     else Inr (dataLength t - ucpTrieErrorValueNegDataOffset))"

text \<open>
  The \<^verbatim>\<open>switch t.valueWidth\<close> of \<^verbatim>\<open>fastGet\<close>: the data array of the declared
  width, read at \<open>i\<close>; \<open>0\<close> for a width outside the enumeration.
\<close>

definition dataValue :: "ucpTrie \<Rightarrow> 32 word \<Rightarrow> panic + 32 word" where
  "dataValue t i =
    (if valueWidth t = ucpTrieValueWidth8 then bindP (at (data8 t) (sint i)) (\<lambda>v. Inr (ucast v))
     else if valueWidth t = ucpTrieValueWidth16 then
       bindP (at (data16 t) (sint i)) (\<lambda>v. Inr (ucast v))
     else if valueWidth t = ucpTrieValueWidth32 then at (data32 t) (sint i)
     else Inr 0)"

definition fastGet :: "ucpTrie \<Rightarrow> rune \<Rightarrow> panic + 32 word" where
  "fastGet t codePoint = bindP (codePointIndex t 0xffff codePoint) (dataValue t)"


lemma fastGet_negative: "sint cp < 0 \<Longrightarrow> fastGet t cp = Inl IndexOutOfRange"
  by (simp add: fastGet_def codePointIndex_def fastIndex_def at_def bindP_def word_sle_eq
        sint_signed_drop_bit_eq)

lemma fastGet_above: "0x10ffff <s cp \<Longrightarrow> fastGet t cp = dataValue t (dataLength t - 1)"
  by (simp add: fastGet_def codePointIndex_def bindP_def word_sle_eq word_sless_alt
        ucpTrie_consts)

section \<open>Claims about the trie\<close>

text \<open>
  C4 (code evaluated at the failing input). \<open>fastGet\<close> compares the code point with
  \<open>fastMax\<close> as a signed \<^verbatim>\<open>int32\<close>, so a negative code point takes the fast path
  and indexes \<^verbatim>\<open>t.index\<close> at a negative offset: for the code point \<open>-1\<close> the lookup
  panics in every trie, where the claim (and the function's own comment) promise the
  error value stored at \<open>dataLength - 1\<close>.
\<close>

theorem fastGet_minus_one_panics: "fastGet t (- 1) = Inl IndexOutOfRange"
  by (simp add: fastGet_def codePointIndex_def fastIndex_def at_def bindP_def word_sle_eq)

text \<open>
  A small-type trie for C8: \<open>index[64]\<close> is at once the fast-path entry of
  \<open>U+1000\<close> and its index-1 entry, and the two paths lead to different data.
\<close>

definition smallTrie :: ucpTrie where
  "smallTrie = \<lparr>trieType = ucpTrieTypeSmall, valueWidth = ucpTrieValueWidth16, dataLength = 68,
     index3NullOffset = 0, dataNullOffset = 0, highStart = 0x2000, shifted12HighStart = 0,
     nullValueOffset = 0,
     index = replicate 64 0 @ [65, 0, 0, 0, 0, 0, 0, 0, 0, 74, 1],
     data8 = [], data16 = [0, 7] @ replicate 63 0 @ [9, 0, 0], data32 = [], nullValue = 0\<rparr>"

text \<open>
  C8 as stated fails: in the small trie above \<open>U+1000\<close> is at the small fast limit
  \<open>ucpTrieSmallLimit\<close> and below \<open>highStart\<close>, yet \<open>fastGet\<close> resolves it by the
  one-level fast index (value 9) and not by the multi-level path (value 7).
\<close>

theorem fastGet_small_trie_uses_fast_path:
  "trieType smallTrie = ucpTrieTypeSmall \<and> ucpTrieSmallLimit \<le>s 0x1000 \<and>
   0x1000 <s highStart smallTrie \<and>
   fastGet smallTrie 0x1000 = Inr 9 \<and>
   fastGet smallTrie 0x1000 = bindP (fastIndex smallTrie 0x1000) (dataValue smallTrie) \<and>
   bindP (internalSmallIndex smallTrie 0x1000) (dataValue smallTrie) = Inr 7"
  by (simp add: fastGet_def codePointIndex_def fastIndex_def internalSmallIndex_def at_def
        bindP_def word_sle_eq word_sless_alt smallTrie_def dataValue_def ucpTrie_consts
        nth_append Let_def)

text \<open>
  C8 (as amended). \<open>fastGet\<close> uses the one-level fast index path exactly for the
  code points that are at most \<open>0xFFFF\<close> as signed values, whatever the trie type: there
  the trie type has no influence on the result. Code points above \<open>0xFFFF\<close>, at most
  \<open>0x10FFFF\<close> and below \<open>highStart\<close> are resolved by the multi-level path
  \<open>internalSmallIndex\<close>.
\<close>

theorem fastGet_fast_limit_fixed:
  "(cp \<le>s 0xFFFF \<longrightarrow>
      fastGet t cp = bindP (fastIndex t cp) (dataValue t) \<and>
      fastGet (t\<lparr>trieType := ty\<rparr>) cp = fastGet t cp) \<and>
   (0xFFFF <s cp \<and> cp \<le>s 0x10FFFF \<and> cp <s highStart t \<longrightarrow>
      fastGet t cp = bindP (internalSmallIndex t cp) (dataValue t))"
proof -
  have dv: "dataValue (t\<lparr>trieType := ty\<rparr>) = dataValue t"
    by (simp add: dataValue_def fun_eq_iff)
  show ?thesis
    by (auto simp: fastGet_def codePointIndex_def fastIndex_def smallIndex_def dv
          word_sle_eq word_sless_alt)
qed

theorem fastGet_fast_limit_fixed_witness:
  "fastGet smallTrie 0x1000 = bindP (fastIndex smallTrie 0x1000) (dataValue smallTrie) \<and>
   fastGet (smallTrie\<lparr>trieType := ucpTrieTypeFast\<rparr>) 0x1000 = fastGet smallTrie 0x1000 \<and>
   fastGet (smallTrie\<lparr>highStart := 0x20000\<rparr>) 0x10000 =
     bindP (internalSmallIndex (smallTrie\<lparr>highStart := 0x20000\<rparr>) 0x10000)
       (dataValue (smallTrie\<lparr>highStart := 0x20000\<rparr>))"
  using fastGet_fast_limit_fixed [of "0x1000" smallTrie ucpTrieTypeFast]
    fastGet_fast_limit_fixed [of "0x10000" "smallTrie\<lparr>highStart := 0x20000\<rparr>" ucpTrieTypeFast]
  by (simp add: word_sle_eq word_sless_alt smallTrie_def)

section \<open>Break data tables\<close>

text \<open>
  \<^verbatim>\<open>rbbiStateTableRow\<close>, \<^verbatim>\<open>rbbiStateTable\<close> and \<^verbatim>\<open>rbbiData\<close>. The field
  \<^verbatim>\<open>valueWidth\<close> of the state table is named \<open>tableValueWidth\<close> here, the name being
  taken by the trie's field. The four built-in bundles are not part of the sources; the
  data bundle is a parameter of everything below.
\<close>

record rbbiStateTableRow =
  accepting :: "8 word"
  lookahead :: "8 word"
  tagIndex :: "8 word"
  nextStates :: "8 word list"

record rbbiStateTable =
  stateCount :: "32 word"
  rowLength :: "32 word"
  dictCategoriesStart :: "32 word"
  lookaheadResultsSize :: "32 word"
  lookaheadHardBreak :: bool
  bofRequired :: bool
  tableValueWidth :: "8 word"
  rows :: "rbbiStateTableRow list"

record rbbiData =
  forwardTable :: rbbiStateTable
  reverseTable :: rbbiStateTable
  trie :: ucpTrie
  categoryCount :: "32 word"

section \<open>The break iterator\<close>

text \<open>
  \<^verbatim>\<open>RBBI\<close>. The cursor is an interface value: \<open>None\<close> is Go's \<^verbatim>\<open>nil\<close>, on which
  a method call panics; \<open>Some c\<close> is the \<^verbatim>\<open>StringCursor\<close> the engine iterates
  over, held by value (the engine is the only one to move it during a call).
\<close>

record RBBI =
  data :: rbbiData
  lookaheadMatches :: "int list"
  ruleStatusIndex :: "32 word"
  cursor :: "StringCursor option"

definition newRBBI :: "rbbiData \<Rightarrow> RBBI" where
  "newRBBI d = \<lparr>data = d,
     lookaheadMatches = replicate (unat (lookaheadResultsSize (forwardTable d))) 0,
     ruleStatusIndex = 0, cursor = None\<rparr>"

definition SetCursor :: "RBBI \<Rightarrow> StringCursor \<Rightarrow> RBBI" where
  "SetCursor r c = r\<lparr>cursor := Some c\<rparr>"

definition rbbiStateStart :: "32 word" where "rbbiStateStart = 1"
definition rbbiStateStop :: "32 word" where "rbbiStateStop = 0"
definition rbbiAcceptingUnconditional :: "16 word" where "rbbiAcceptingUnconditional = 1"

datatype rbbiRunMode = rbbiRunModeStart | rbbiRunModeRun | rbbiRunModeEnd

subsection \<open>Next\<close>

text \<open>
  The variables of \<^verbatim>\<open>Next\<close> that live across iterations of its loop, with the
  fields of the engine the loop writes: \<open>v_matches\<close> is \<^verbatim>\<open>r.lookaheadMatches\<close>,
  \<open>v_status\<close> is \<^verbatim>\<open>r.ruleStatusIndex\<close>, \<open>v_cursor\<close> is the cursor behind
  \<^verbatim>\<open>r.cursor\<close>, \<open>v_dict\<close> is \<^verbatim>\<open>fDictionaryCharCount\<close>.
\<close>

record nextVars =
  v_c :: rune
  v_nextOk :: bool
  v_category :: "16 word"
  v_state :: "32 word"
  v_row :: rbbiStateTableRow
  v_mode :: rbbiRunMode
  v_result :: int
  v_dict :: int
  v_matches :: "int list"
  v_status :: "32 word"
  v_cursor :: StringCursor

text \<open>
  How the loop is left: by \<^verbatim>\<open>break\<close>, or by the \<^verbatim>\<open>return\<close> of a completed
  lookahead with the position returned.
\<close>

datatype loop_exit = Broke nextVars | Returned int nextVars

datatype step = Continue nextVars | Exit loop_exit

text \<open>
  The head of the loop body: at the end of the input the loop runs once more with the
  category 1 and then breaks (\<open>None\<close>).
\<close>

definition iter_endOfInput :: "nextVars \<Rightarrow> nextVars option" where
  "iter_endOfInput v =
    (if \<not> v_nextOk v then
       (if v_mode v = rbbiRunModeEnd then None
        else Some (v\<lparr>v_mode := rbbiRunModeEnd, v_category := 1\<rparr>))
     else Some v)"

text \<open>The category of the current rune: \<^verbatim>\<open>uint16(r.data.trie.fastGet(c))\<close>.\<close>

definition iter_category :: "rbbiData \<Rightarrow> nextVars \<Rightarrow> panic + nextVars" where
  "iter_category d v =
    (if v_mode v = rbbiRunModeRun then
       bindP (fastGet (trie d) (v_c v)) (\<lambda>x.
       let category = (ucast x :: 16 word) in
       Inr (v\<lparr>v_category := category,
               v_dict := (if dictCategoriesStart (forwardTable d) \<le> ucast category
                          then v_dict v + 1 else v_dict v)\<rparr>))
     else Inr v)"

text \<open>The state transition, with the assertion on the category before it.\<close>

definition iter_transition :: "rbbiData \<Rightarrow> nextVars \<Rightarrow> panic + nextVars" where
  "iter_transition d v =
    (if categoryCount d \<le> ucast (v_category v) then Inl AssertionError
     else
       bindP (at (nextStates (v_row v)) (uint (v_category v))) (\<lambda>ns.
       let state = (ucast ns :: 32 word) in
       bindP (at (rows (forwardTable d)) (sint state)) (\<lambda>row.
       Inr (v\<lparr>v_state := state, v_row := row\<rparr>))))"

text \<open>
  The accepting entry of the new row. \<^verbatim>\<open>int16(row.accepting)\<close> is \<open>ucast\<close> to a
  16-bit word compared as signed; \<^verbatim>\<open>uint32(accepting)\<close> of that \<^verbatim>\<open>int16\<close> is
  \<open>scast\<close>. The error of \<^verbatim>\<open>SetPosition\<close> is dropped, as in the source.
\<close>

definition iter_accepting :: "rbbiData \<Rightarrow> nextVars \<Rightarrow> panic + step" where
  "iter_accepting d v =
    (let row = v_row v; accepting = (ucast (accepting row) :: 16 word) in
     if accepting = rbbiAcceptingUnconditional then
       Inr (Continue (v\<lparr>
         v_result := (if v_mode v \<noteq> rbbiRunModeStart then Position (v_cursor v) else v_result v),
         v_status := ucast (tagIndex row)\<rparr>))
     else if rbbiAcceptingUnconditional <s accepting then
       (if lookaheadResultsSize (forwardTable d) \<le> scast accepting then Inl AssertionError
        else
          bindP (at (v_matches v) (sint accepting)) (\<lambda>lookaheadResult.
          if 0 \<le> lookaheadResult then
            Inr (Exit (Returned lookaheadResult (v\<lparr>
              v_status := ucast (tagIndex row),
              v_cursor := snd (SetPosition (v_cursor v) lookaheadResult)\<rparr>)))
          else Inr (Continue v)))
     else Inr (Continue v))"

text \<open>The lookahead entry of the new row: the position of the slash is recorded.\<close>

definition iter_lookahead :: "rbbiData \<Rightarrow> nextVars \<Rightarrow> panic + nextVars" where
  "iter_lookahead d v =
    (let rule = lookahead (v_row v) in
     if rule \<noteq> 0 \<and> (ucast rule :: 16 word) \<le>s rbbiAcceptingUnconditional then Inl AssertionError
     else if rule \<noteq> 0 \<and> lookaheadResultsSize (forwardTable d) \<le> ucast rule
       then Inl AssertionError
     else if rbbiAcceptingUnconditional <s (ucast rule :: 16 word) then
       bindP (put (v_matches v) (uint rule) (Position (v_cursor v))) (\<lambda>m.
       Inr (v\<lparr>v_matches := m\<rparr>))
     else Inr v)"

text \<open>The end of the loop body: stop in state 0, else advance to the next rune.\<close>

definition iter_advance :: "nextVars \<Rightarrow> panic + step" where
  "iter_advance v =
    (if v_state v = rbbiStateStop then Inr (Exit (Broke v))
     else if v_mode v = rbbiRunModeRun then
       bindP (cursorNext (v_cursor v)) (\<lambda>(c, ok, cur).
       Inr (Continue (v\<lparr>v_c := c, v_nextOk := ok, v_cursor := cur\<rparr>)))
     else if v_mode v = rbbiRunModeStart then Inr (Continue (v\<lparr>v_mode := rbbiRunModeRun\<rparr>))
     else Inr (Continue v))"

definition Next_iter :: "rbbiData \<Rightarrow> nextVars \<Rightarrow> panic + step" where
  "Next_iter d v =
    (case iter_endOfInput v of
       None \<Rightarrow> Inr (Exit (Broke v))
     | Some v1 \<Rightarrow>
         bindP (iter_category d v1) (\<lambda>v2.
         bindP (iter_transition d v2) (\<lambda>v3.
         bindP (iter_accepting d v3) (\<lambda>s.
         case s of
           Continue v4 \<Rightarrow> bindP (iter_lookahead d v4) iter_advance
         | Exit x \<Rightarrow> Inr (Exit x)))))"

text \<open>
  The loop \<^verbatim>\<open>for { ... }\<close> of \<^verbatim>\<open>Next\<close>. Nothing in its text bounds the number
  of iterations, so it is a partial function: \<open>None\<close> stands for a loop that never ends.
\<close>

partial_function (option) Next_loop :: "rbbiData \<Rightarrow> nextVars \<Rightarrow> (panic + loop_exit) option" where
  "Next_loop d v =
    (case Next_iter d v of
       Inl e \<Rightarrow> Some (Inl e)
     | Inr (Continue v') \<Rightarrow> Next_loop d v'
     | Inr (Exit x) \<Rightarrow> Some (Inr x))"

declare Next_loop.simps [code]

text \<open>The engine after the loop: the fields the loop wrote are stored back.\<close>

definition store :: "RBBI \<Rightarrow> nextVars \<Rightarrow> RBBI" where
  "store r v = r\<lparr>lookaheadMatches := v_matches v, ruleStatusIndex := v_status v,
                 cursor := Some (v_cursor v)\<rparr>"

text \<open>
  The code after the loop: the forced advance by one rune when the rules did not move,
  and the final \<^verbatim>\<open>SetPosition(result)\<close>. The result is
  \<^verbatim>\<open>(position, ok)\<close> and the engine.
\<close>

definition Next_finish :: "RBBI \<Rightarrow> int \<Rightarrow> loop_exit \<Rightarrow> panic + (int \<times> bool \<times> RBBI)" where
  "Next_finish r initialPosition x =
    (case x of
       Returned lookaheadResult v \<Rightarrow> Inr (lookaheadResult, True, store r v)
     | Broke v \<Rightarrow>
         if v_result v = initialPosition then
           (let cur = snd (SetPosition (v_cursor v) initialPosition) in
            bindP (cursorNext cur) (\<lambda>(c, ok, cur1).
            if \<not> ok then Inr (- 1, False, store r (v\<lparr>v_cursor := cur1\<rparr>))
            else
              let result = Position cur1 in
              Inr (result, True,
                   store r (v\<lparr>v_status := 0, v_cursor := snd (SetPosition cur1 result)\<rparr>))))
         else
           Inr (v_result v, True,
                store r (v\<lparr>v_cursor := snd (SetPosition (v_cursor v) (v_result v))\<rparr>)))"

text \<open>The state of the loop variables when the loop is entered.\<close>

definition Next_init :: "RBBI \<Rightarrow> int \<Rightarrow> rune \<Rightarrow> StringCursor \<Rightarrow> rbbiStateTableRow \<Rightarrow> nextVars" where
  "Next_init r initialPosition c cur row =
    \<lparr>v_c = c, v_nextOk = True,
     v_category = (if bofRequired (forwardTable (data r)) then 2 else 0),
     v_state = rbbiStateStart, v_row = row,
     v_mode = (if bofRequired (forwardTable (data r)) then rbbiRunModeStart else rbbiRunModeRun),
     v_result = initialPosition, v_dict = 0,
     v_matches = lookaheadMatches r, v_status = 0, v_cursor = cur\<rparr>"

definition Next :: "RBBI \<Rightarrow> (panic + (int \<times> bool \<times> RBBI)) option" where
  "Next r =
    (case cursor r of
       None \<Rightarrow> Some (Inl NilDereference)
     | Some cur0 \<Rightarrow>
         let initialPosition = Position cur0 in
         (case cursorNext cur0 of
            Inl e \<Rightarrow> Some (Inl e)
          | Inr (c, nextOk, cur1) \<Rightarrow>
              if \<not> nextOk then
                Some (Inr (- 1, False, r\<lparr>ruleStatusIndex := 0, cursor := Some cur1\<rparr>))
              else
                (case at (rows (forwardTable (data r))) (sint rbbiStateStart) of
                   Inl e \<Rightarrow> Some (Inl e)
                 | Inr row \<Rightarrow>
                     (case Next_loop (data r) (Next_init r initialPosition c cur1 row) of
                        None \<Rightarrow> None
                      | Some (Inl e) \<Rightarrow> Some (Inl e)
                      | Some (Inr x) \<Rightarrow>
                          Some (Next_finish r initialPosition x)))))"


subsection \<open>safePrevious\<close>

text \<open>The variables of \<^verbatim>\<open>safePrevious\<close> that live across iterations of its loop.\<close>

record prevVars =
  p_c :: rune
  p_ok :: bool
  p_state :: "32 word"
  p_row :: rbbiStateTableRow
  p_cursor :: StringCursor

text \<open>
  The body of the loop \<^verbatim>\<open>for ok { ... }\<close>; the flag tells whether it left by
  \<^verbatim>\<open>break\<close>. The category is the \<^verbatim>\<open>uint32\<close> of \<^verbatim>\<open>fastGet\<close>, not truncated.
\<close>

definition safePrevious_iter :: "rbbiData \<Rightarrow> prevVars \<Rightarrow> panic + (bool \<times> prevVars)" where
  "safePrevious_iter d v =
    bindP (fastGet (trie d) (p_c v)) (\<lambda>category.
    if categoryCount d \<le> category then Inl AssertionError
    else
      bindP (at (nextStates (p_row v)) (uint category)) (\<lambda>ns.
      let state = (ucast ns :: 32 word) in
      bindP (at (rows (reverseTable d)) (sint state)) (\<lambda>row.
      let v1 = v\<lparr>p_state := state, p_row := row\<rparr> in
      if state = rbbiStateStop then Inr (True, v1)
      else
        bindP (cursorPrevious (p_cursor v1)) (\<lambda>(c, ok, cur).
        Inr (False, v1\<lparr>p_c := c, p_ok := ok, p_cursor := cur\<rparr>)))))"

partial_function (option) safePrevious_loop ::
  "rbbiData \<Rightarrow> prevVars \<Rightarrow> (panic + prevVars) option" where
  "safePrevious_loop d v =
    (if \<not> p_ok v then Some (Inr v)
     else
       (case safePrevious_iter d v of
          Inl e \<Rightarrow> Some (Inl e)
        | Inr (broke, v') \<Rightarrow> if broke then Some (Inr v') else safePrevious_loop d v'))"

declare safePrevious_loop.simps [code]

text \<open>The variables of the loop of \<open>safePrevious\<close> when it is entered.\<close>

definition safePrevious_init :: "rune \<Rightarrow> rbbiStateTableRow \<Rightarrow> StringCursor \<Rightarrow> prevVars" where
  "safePrevious_init c row cur =
     \<lparr>p_c = c, p_ok = True, p_state = rbbiStateStart, p_row = row, p_cursor = cur\<rparr>"

definition safePrevious :: "RBBI \<Rightarrow> int \<Rightarrow> (panic + (int \<times> bool \<times> RBBI)) option" where
  "safePrevious r fromPosition =
    (case cursor r of
       None \<Rightarrow> Some (Inl NilDereference)
     | Some cur0 \<Rightarrow>
         let cur1 = snd (SetPosition cur0 fromPosition) in
         (case cursorPrevious cur1 of
            Inl e \<Rightarrow> Some (Inl e)
          | Inr (c, ok, cur2) \<Rightarrow>
              if \<not> ok then Some (Inr (- 1, False, r\<lparr>cursor := Some cur2\<rparr>))
              else
                (case at (rows (reverseTable (data r))) (sint rbbiStateStart) of
                   Inl e \<Rightarrow> Some (Inl e)
                 | Inr row \<Rightarrow>
                     (case safePrevious_loop (data r) (safePrevious_init c row cur2) of
                        None \<Rightarrow> None
                      | Some (Inl e) \<Rightarrow> Some (Inl e)
                      | Some (Inr v) \<Rightarrow>
                          Some (Inr (Position (p_cursor v), True,
                                     r\<lparr>cursor := Some (p_cursor v)\<rparr>))))))"

subsection \<open>Previous\<close>






lemma DecodeLast_size:
  assumes "s \<noteq> []"
  shows "0 < snd (DecodeLastRuneInString s) \<and> snd (DecodeLastRuneInString s) \<le> length s"
proof -
  define e where "e = int (length s)"
  have e1: "1 \<le> e" using assms by (cases s) (simp_all add: e_def)
  define lim where "lim = (if e - 4 < 0 then 0 else e - 4)"
  define start1 where "start1 = scan_start s lim (e - 1 - 1)"
  define start2 where "start2 = (if start1 < 0 then 0 else start1)"
  have "lim - 1 \<le> e - 1 - 1" using e1 by (simp add: lim_def)
  from scan_start_bounds [OF this, of s] have "start1 \<le> e - 2" by (simp add: start1_def)
  then have s2: "0 \<le> start2" "start2 \<le> e - 1" using e1 by (auto simp: start2_def)
  define n where "n = snd (DecodeRuneInString (drop (nat start2) s))"
  have cases: "snd (DecodeLastRuneInString s) = 1 \<or>
     (snd (DecodeLastRuneInString s) = n \<and> start2 + int n = e)"
    unfolding DecodeLastRuneInString_def Let_def n_def start2_def start1_def lim_def e_def
    using assms by (auto simp: split_beta)
  then show ?thesis using s2 e1 by (auto simp: e_def)
qed

lemma cursorNext_ok:
  assumes "cursorNext c = Inr (r, True, c')"
  shows "text c' = text c \<and> 0 \<le> position c \<and> position c < position c' \<and>
         position c' \<le> int (length (text c))"
proof -
  from assms have lt: "position c < int (length (text c))" and p0: "0 \<le> position c"
    by (auto simp: cursorNext_def split: if_splits)
  define u where "u = drop (nat (position c)) (text c)"
  have une: "u \<noteq> []" using lt p0 by (simp add: u_def)
  have c': "c' = c\<lparr>position := position c + int (snd (DecodeRuneInString u))\<rparr>"
    using assms lt p0 by (simp add: cursorNext_def u_def split_beta)
  have "0 < snd (DecodeRuneInString u)" using une by (rule DecodeRuneInString_size_pos)
  moreover have "snd (DecodeRuneInString u) \<le> length u" by (rule DecodeRuneInString_size_le)
  moreover have "int (length u) = int (length (text c)) - position c" using lt p0 by (simp add: u_def)
  ultimately show ?thesis using p0 c' by simp
qed

lemma cursorNext_not_ok:
  assumes "cursorNext c = Inr (r, False, c')"
  shows "c' = c \<and> int (length (text c)) \<le> position c"
  using assms by (auto simp: cursorNext_def split_beta split: if_splits)

lemma cursorNext_at_end: "int (length (text c)) \<le> position c \<Longrightarrow> cursorNext c = Inr (- 1, False, c)"
  by (simp add: cursorNext_def)

lemma cursorPrevious_ok:
  assumes "cursorPrevious c = Inr (r, True, c')"
  shows "text c' = text c \<and> 0 \<le> position c' \<and> position c' < position c \<and>
         position c \<le> int (length (text c))"
proof -
  from assms have gt: "0 < position c" and le: "position c \<le> int (length (text c))"
    by (auto simp: cursorPrevious_def split: if_splits)
  define u where "u = take (nat (position c)) (text c)"
  have une: "u \<noteq> []" using gt le by (auto simp: u_def)
  have c': "c' = c\<lparr>position := position c - int (snd (DecodeLastRuneInString u))\<rparr>"
    using assms gt le by (simp add: cursorPrevious_def u_def split_beta)
  have "int (length u) = position c" using gt le by (simp add: u_def)
  then show ?thesis using DecodeLast_size [OF une] c' le by simp
qed

lemma cursorPrevious_not_ok:
  assumes "cursorPrevious c = Inr (r, False, c')"
  shows "c' = c \<and> position c \<le> 0"
  using assms by (auto simp: cursorPrevious_def split_beta split: if_splits)

lemma SetPosition_text: "text (snd (SetPosition c p)) = text c"
  by (simp add: SetPosition_def)


lemma SetPosition_invalid:
  "p < 0 \<or> int (length (text c)) < p \<Longrightarrow> snd (SetPosition c p) = c"
  by (auto simp: SetPosition_def)

lemma bindP_Inr: "bindP m f = Inr y \<longleftrightarrow> (\<exists>x. m = Inr x \<and> f x = Inr y)"
  by (cases m) (simp_all add: bindP_def)

lemma Next_loop_exit:
  assumes run: "Next_loop d v = Some (Inr x)" and init: "I v"
    and step: "\<And>v v'. I v \<Longrightarrow> Next_iter d v = Inr (Continue v') \<Longrightarrow> I v'"
  shows "\<exists>v0. I v0 \<and> Next_iter d v0 = Inr (Exit x)"
proof -
  define P where "P = (\<lambda>d0 w (y :: (panic + loop_exit)).
    d0 = d \<longrightarrow> I w \<longrightarrow> y = Inr x \<longrightarrow> (\<exists>v0. I v0 \<and> Next_iter d v0 = Inr (Exit x)))"
  have "P d v (Inr x)"
  proof (rule Next_loop.raw_induct [where P = P, OF _ run])
    fix loop d0 w y
    assume IH: "\<And>d1 w1 y1. loop d1 w1 = Some y1 \<Longrightarrow> P d1 w1 y1"
      and body: "(case Next_iter d0 w of Inl e \<Rightarrow> Some (Inl e)
                  | Inr (Continue v') \<Rightarrow> loop d0 v' | Inr (Exit x) \<Rightarrow> Some (Inr x)) = Some y"
    show "P d0 w y"
      unfolding P_def
    proof (intro impI)
      assume d0: "d0 = d" and iw: "I w" and y: "y = Inr x"
      show "\<exists>v0. I v0 \<and> Next_iter d v0 = Inr (Exit x)"
      proof (cases "Next_iter d w")
        case (Inl e)
        with body y d0 show ?thesis by simp
      next
        case (Inr s)
        show ?thesis
        proof (cases s)
          case (Continue w')
          with Inr body d0 have "loop d w' = Some y" by simp
          from IH [OF this] have "P d w' y" .
          moreover have "I w'" using step [OF iw] Inr Continue by simp
          ultimately show ?thesis using y by (simp add: P_def)
        next
          case (Exit x')
          with Inr body y d0 have "x' = x" by simp
          with Inr Exit iw show ?thesis by blast
        qed
      qed
    qed
  qed
  with init show ?thesis by (simp add: P_def)
qed

text \<open>What each stage of the loop body leaves alone.\<close>

lemma iter_endOfInput_frame:
  "iter_endOfInput v = Some v1 \<Longrightarrow>
   v_cursor v1 = v_cursor v \<and> v_result v1 = v_result v \<and> v_matches v1 = v_matches v \<and>
   v_row v1 = v_row v \<and> v_status v1 = v_status v \<and> v_nextOk v1 = v_nextOk v \<and>
   v_mode v1 = (if v_nextOk v then v_mode v else rbbiRunModeEnd)"
  by (auto simp: iter_endOfInput_def split: if_splits)

lemma iter_category_frame:
  "iter_category d v = Inr v1 \<Longrightarrow>
   v_cursor v1 = v_cursor v \<and> v_result v1 = v_result v \<and> v_matches v1 = v_matches v \<and>
   v_row v1 = v_row v \<and> v_status v1 = v_status v \<and> v_nextOk v1 = v_nextOk v \<and>
   v_mode v1 = v_mode v"
  by (auto simp: iter_category_def bindP_Inr Let_def split: if_splits)

lemma iter_transition_frame:
  "iter_transition d v = Inr v1 \<Longrightarrow>
   v_cursor v1 = v_cursor v \<and> v_result v1 = v_result v \<and> v_matches v1 = v_matches v \<and>
   v_status v1 = v_status v \<and> v_nextOk v1 = v_nextOk v \<and> v_mode v1 = v_mode v"
  by (auto simp: iter_transition_def bindP_Inr Let_def split: if_splits)

lemma iter_accepting_Continue:
  "iter_accepting d v = Inr (Continue v1) \<Longrightarrow>
   v_cursor v1 = v_cursor v \<and> v_matches v1 = v_matches v \<and> v_row v1 = v_row v \<and>
   v_state v1 = v_state v \<and> v_nextOk v1 = v_nextOk v \<and> v_mode v1 = v_mode v \<and>
   (v_result v1 = v_result v \<or> v_result v1 = position (v_cursor v))"
  by (auto simp: iter_accepting_def bindP_Inr Let_def Position_def split: if_splits)

lemma iter_accepting_Exit:
  "iter_accepting d v = Inr (Exit x) \<Longrightarrow>
   \<exists>k saved. 0 \<le> k \<and> k < int (length (v_matches v)) \<and> saved = v_matches v ! nat k \<and>
     0 \<le> saved \<and>
     x = Returned saved (v\<lparr>v_status := ucast (tagIndex (v_row v)),
                           v_cursor := snd (SetPosition (v_cursor v) saved)\<rparr>)"
  by (auto simp: iter_accepting_def bindP_Inr Let_def at_def split: if_splits)

lemma put_Inr: "put xs i v = Inr ys \<Longrightarrow> nat i < length xs \<and> ys = xs[nat i := v]"
  by (auto simp: put_def split: if_splits)

lemma iter_lookahead_frame:
  assumes "iter_lookahead d v = Inr v1"
  shows "v_cursor v1 = v_cursor v \<and> v_result v1 = v_result v \<and> v_state v1 = v_state v \<and>
   v_nextOk v1 = v_nextOk v \<and> v_mode v1 = v_mode v \<and> v_status v1 = v_status v \<and>
   (v_matches v1 = v_matches v \<or>
    (\<exists>k < length (v_matches v). v_matches v1 = (v_matches v)[k := position (v_cursor v)]))"
proof (cases "rbbiAcceptingUnconditional <s (ucast (lookahead (v_row v)) :: 16 word)")
  case True
  with assms obtain m where m: "put (v_matches v) (uint (lookahead (v_row v))) (Position (v_cursor v)) = Inr m"
    and v1: "v1 = v\<lparr>v_matches := m\<rparr>"
    by (auto simp: iter_lookahead_def bindP_Inr Let_def split: if_splits)
  from put_Inr [OF m] v1 show ?thesis by (auto simp: Position_def)
next
  case False
  with assms have "v1 = v" by (auto simp: iter_lookahead_def Let_def split: if_splits)
  then show ?thesis by simp
qed

lemma iter_advance_Continue:
  "iter_advance v = Inr (Continue v1) \<Longrightarrow>
   v_result v1 = v_result v \<and> v_matches v1 = v_matches v \<and> v_status v1 = v_status v \<and>
   ((v_cursor v1 = v_cursor v \<and> v_nextOk v1 = v_nextOk v \<and> v_mode v \<noteq> rbbiRunModeRun \<and>
       v_mode v1 = (if v_mode v = rbbiRunModeStart then rbbiRunModeRun else v_mode v)) \<or>
    (v_mode v = rbbiRunModeRun \<and> v_mode v1 = rbbiRunModeRun \<and>
       (\<exists>c. cursorNext (v_cursor v) = Inr (c, v_nextOk v1, v_cursor v1))))"
  by (auto simp: iter_advance_def bindP_Inr split: if_splits)

lemma iter_advance_Exit:
  "iter_advance v = Inr (Exit x) \<Longrightarrow> x = Broke v \<and> v_state v = rbbiStateStop"
  by (auto simp: iter_advance_def bindP_Inr split: if_splits)

text \<open>One turn of the loop body, stage by stage.\<close>

lemma Next_iter_Continue:
  assumes "Next_iter d v = Inr (Continue v')"
  obtains v1 v2 v3 v4 v5 where
    "iter_endOfInput v = Some v1" "iter_category d v1 = Inr v2" "iter_transition d v2 = Inr v3"
    "iter_accepting d v3 = Inr (Continue v4)" "iter_lookahead d v4 = Inr v5"
    "iter_advance v5 = Inr (Continue v')"
proof (cases "iter_endOfInput v")
  case None
  with assms show ?thesis by (simp add: Next_iter_def)
next
  case (Some v1)
  with assms obtain v2 v3 s where
    a: "iter_category d v1 = Inr v2" "iter_transition d v2 = Inr v3"
       "iter_accepting d v3 = Inr s"
       "(case s of Continue v4 \<Rightarrow> bindP (iter_lookahead d v4) iter_advance | Exit x \<Rightarrow> Inr (Exit x))
        = Inr (Continue v')"
    by (auto simp: Next_iter_def bindP_Inr)
  show ?thesis
  proof (cases s)
    case (Continue v4)
    with a(4) obtain v5 where "iter_lookahead d v4 = Inr v5" "iter_advance v5 = Inr (Continue v')"
      by (auto simp: bindP_Inr)
    with Some a Continue show ?thesis by (intro that) auto
  next
    case (Exit x)
    with a(4) show ?thesis by simp
  qed
qed

lemma Next_iter_Exit:
  assumes "Next_iter d v = Inr (Exit x)"
  obtains (ended) "iter_endOfInput v = None" "x = Broke v"
  | (returned) v1 v2 v3 where
      "iter_endOfInput v = Some v1" "iter_category d v1 = Inr v2"
      "iter_transition d v2 = Inr v3" "iter_accepting d v3 = Inr (Exit x)"
  | (stopped) v1 v2 v3 v4 v5 where
      "iter_endOfInput v = Some v1" "iter_category d v1 = Inr v2"
      "iter_transition d v2 = Inr v3" "iter_accepting d v3 = Inr (Continue v4)"
      "iter_lookahead d v4 = Inr v5" "iter_advance v5 = Inr (Exit x)"
proof (cases "iter_endOfInput v")
  case None
  with assms have "x = Broke v" by (simp add: Next_iter_def)
  with None show ?thesis by (rule ended)
next
  case (Some v1)
  with assms obtain v2 v3 s where
    a: "iter_category d v1 = Inr v2" "iter_transition d v2 = Inr v3"
       "iter_accepting d v3 = Inr s"
       "(case s of Continue v4 \<Rightarrow> bindP (iter_lookahead d v4) iter_advance | Exit x \<Rightarrow> Inr (Exit x))
        = Inr (Exit x)"
    by (auto simp: Next_iter_def bindP_Inr)
  show ?thesis
  proof (cases s)
    case (Continue v4)
    with a(4) obtain v5 where "iter_lookahead d v4 = Inr v5" "iter_advance v5 = Inr (Exit x)"
      by (auto simp: bindP_Inr)
    with Some a Continue show ?thesis by (intro stopped) auto
  next
    case (Exit x')
    with a(4) have "x' = x" by simp
    with Some a Exit show ?thesis by (intro returned) auto
  qed
qed

text \<open>
  The invariant of the loop of \<open>Next\<close>, entered at position \<open>p0\<close> of the text \<open>t\<close>
  with the lookahead slots \<open>ms0\<close>: the cursor is past \<open>p0\<close>, the result is \<open>p0\<close> or a
  position past it, and every slot holds its value at entry or a position past \<open>p0\<close>.
\<close>

definition past :: "byte list \<Rightarrow> int \<Rightarrow> int \<Rightarrow> bool" where
  "past t p0 p \<longleftrightarrow> p0 < p \<and> p \<le> int (length t)"

definition slots_ok :: "byte list \<Rightarrow> int \<Rightarrow> int list \<Rightarrow> int list \<Rightarrow> bool" where
  "slots_ok t p0 ms0 ms \<longleftrightarrow>
     length ms = length ms0 \<and> (\<forall>i < length ms0. ms ! i = ms0 ! i \<or> past t p0 (ms ! i))"

definition Next_inv :: "byte list \<Rightarrow> int \<Rightarrow> int list \<Rightarrow> nextVars \<Rightarrow> bool" where
  "Next_inv t p0 ms0 v \<longleftrightarrow>
     text (v_cursor v) = t \<and> past t p0 (position (v_cursor v)) \<and>
     (v_result v = p0 \<or> past t p0 (v_result v)) \<and> slots_ok t p0 ms0 (v_matches v)"

lemma slots_ok_update:
  "slots_ok t p0 ms0 ms \<Longrightarrow> past t p0 p \<Longrightarrow> slots_ok t p0 ms0 (ms[k := p])"
proof -
  assume a: "slots_ok t p0 ms0 ms" "past t p0 p"
  then have len: "length ms = length ms0" by (simp add: slots_ok_def)
  have "(ms[k := p]) ! i = ms0 ! i \<or> past t p0 ((ms[k := p]) ! i)" if "i < length ms0" for i
  proof (cases "i = k")
    case True
    then show ?thesis using that len a(2) by simp
  next
    case False
    then show ?thesis using that a(1) by (simp add: slots_ok_def)
  qed
  then show ?thesis using len by (simp add: slots_ok_def)
qed

lemma Next_inv_step:
  assumes inv: "Next_inv t p0 ms0 v" and it: "Next_iter d v = Inr (Continue v')"
  shows "Next_inv t p0 ms0 v'"
proof -
  from it obtain v1 v2 v3 v4 v5 where
    s: "iter_endOfInput v = Some v1" "iter_category d v1 = Inr v2" "iter_transition d v2 = Inr v3"
       "iter_accepting d v3 = Inr (Continue v4)" "iter_lookahead d v4 = Inr v5"
       "iter_advance v5 = Inr (Continue v')"
    by (rule Next_iter_Continue)
  note f1 = iter_endOfInput_frame [OF s(1)] and f2 = iter_category_frame [OF s(2)]
    and f3 = iter_transition_frame [OF s(3)] and f4 = iter_accepting_Continue [OF s(4)]
    and f5 = iter_lookahead_frame [OF s(5)] and f6 = iter_advance_Continue [OF s(6)]
  have c5: "v_cursor v5 = v_cursor v" using f1 f2 f3 f4 f5 by simp
  have r5: "v_result v5 = v_result v \<or> v_result v5 = position (v_cursor v)"
    using f1 f2 f3 f4 f5 by auto
  have m5: "slots_ok t p0 ms0 (v_matches v5)"
  proof -
    have m4: "v_matches v4 = v_matches v" and c4: "v_cursor v4 = v_cursor v"
      using f1 f2 f3 f4 by simp_all
    from f5 show ?thesis
      using inv slots_ok_update [of t p0 ms0 "v_matches v" "position (v_cursor v)"]
      unfolding m4 c4 by (auto simp: Next_inv_def)
  qed
  have cur: "text (v_cursor v') = t \<and> past t p0 (position (v_cursor v'))"
  proof -
    from f6 consider "v_cursor v' = v_cursor v5"
      | c ok where "cursorNext (v_cursor v5) = Inr (c, ok, v_cursor v')" by auto
    then show ?thesis
    proof cases
      case 1
      then show ?thesis using inv c5 by (simp add: Next_inv_def)
    next
      case 2
      show ?thesis
      proof (cases ok)
        case True
        with 2 have "cursorNext (v_cursor v5) = Inr (c, True, v_cursor v')" by simp
        from cursorNext_ok [OF this] inv c5 show ?thesis
          by (auto simp: Next_inv_def past_def)
      next
        case False
        with 2 have "cursorNext (v_cursor v5) = Inr (c, False, v_cursor v')" by simp
        from cursorNext_not_ok [OF this] inv c5 show ?thesis
          by (auto simp: Next_inv_def)
      qed
    qed
  qed
  have "v_result v' = p0 \<or> past t p0 (v_result v')"
    using f6 r5 inv by (auto simp: Next_inv_def)
  moreover have "slots_ok t p0 ms0 (v_matches v')" using f6 m5 by simp
  ultimately show ?thesis using cur by (simp add: Next_inv_def)
qed

text \<open>
  What the loop hands to the code after it: at a \<^verbatim>\<open>break\<close> the invariant; at the
  \<^verbatim>\<open>return\<close> of a completed lookahead a slot value that is not negative, and a cursor
  that is there when the value is a position of the text.
\<close>

definition Next_exit_ok :: "byte list \<Rightarrow> int \<Rightarrow> int list \<Rightarrow> loop_exit \<Rightarrow> bool" where
  "Next_exit_ok t p0 ms0 x =
    (case x of
       Broke v \<Rightarrow> Next_inv t p0 ms0 v
     | Returned saved v \<Rightarrow>
         0 \<le> saved \<and> (saved \<in> set ms0 \<or> past t p0 saved) \<and>
         text (v_cursor v) = t \<and> slots_ok t p0 ms0 (v_matches v) \<and>
         (if saved \<le> int (length t) then position (v_cursor v) = saved
          else past t p0 (position (v_cursor v))))"

lemma Next_inv_exit:
  assumes inv: "Next_inv t p0 ms0 v" and it: "Next_iter d v = Inr (Exit x)"
  shows "Next_exit_ok t p0 ms0 x"
  using it
proof (cases rule: Next_iter_Exit)
  case ended
  with inv show ?thesis by (simp add: Next_exit_ok_def)
next
  case (returned v1 v2 v3)
  note f1 = iter_endOfInput_frame [OF returned(1)] and f2 = iter_category_frame [OF returned(2)]
    and f3 = iter_transition_frame [OF returned(3)]
  have c3: "v_cursor v3 = v_cursor v" and m3: "v_matches v3 = v_matches v"
    using f1 f2 f3 by simp_all
  from iter_accepting_Exit [OF returned(4)] obtain k saved where
    k: "0 \<le> k" "k < int (length (v_matches v))" "saved = v_matches v ! nat k" "0 \<le> saved"
    and x: "x = Returned saved (v3\<lparr>v_status := ucast (tagIndex (v_row v3)),
                                   v_cursor := snd (SetPosition (v_cursor v) saved)\<rparr>)"
    unfolding c3 m3 by blast
  from inv have sl: "slots_ok t p0 ms0 (v_matches v)" and tx: "text (v_cursor v) = t"
    and ps: "past t p0 (position (v_cursor v))" by (simp_all add: Next_inv_def)
  have kl: "nat k < length ms0" using k sl by (simp add: slots_ok_def)
  then have "saved = ms0 ! nat k \<or> past t p0 saved" using sl k(3) by (auto simp: slots_ok_def)
  then have mem: "saved \<in> set ms0 \<or> past t p0 saved" using kl by auto
  have "(if saved \<le> int (length t) then position (snd (SetPosition (v_cursor v) saved)) = saved
         else past t p0 (position (snd (SetPosition (v_cursor v) saved))))"
    using k(4) tx ps by (simp add: SetPosition_def)
  then show ?thesis using x k(4) mem sl tx m3
    by (simp add: Next_exit_ok_def SetPosition_text)
next
  case (stopped v1 v2 v3 v4 v5)
  from iter_advance_Exit [OF stopped(6)] have x: "x = Broke v5" by simp
  note f1 = iter_endOfInput_frame [OF stopped(1)] and f2 = iter_category_frame [OF stopped(2)]
    and f3 = iter_transition_frame [OF stopped(3)] and f4 = iter_accepting_Continue [OF stopped(4)]
    and f5 = iter_lookahead_frame [OF stopped(5)]
  have c5: "v_cursor v5 = v_cursor v" using f1 f2 f3 f4 f5 by simp
  have r5: "v_result v5 = v_result v \<or> v_result v5 = position (v_cursor v)"
    using f1 f2 f3 f4 f5 by auto
  have m5: "slots_ok t p0 ms0 (v_matches v5)"
  proof -
    have m4: "v_matches v4 = v_matches v" and c4: "v_cursor v4 = v_cursor v"
      using f1 f2 f3 f4 by simp_all
    from f5 show ?thesis
      using inv slots_ok_update [of t p0 ms0 "v_matches v" "position (v_cursor v)"]
      unfolding m4 c4 by (auto simp: Next_inv_def)
  qed
  show ?thesis using x c5 r5 m5 inv by (auto simp: Next_exit_ok_def Next_inv_def)
qed

lemma Next_loop_post:
  assumes "Next_loop d v = Some (Inr x)" "Next_inv t p0 ms0 v"
  shows "Next_exit_ok t p0 ms0 x"
proof -
  have "\<exists>v0. Next_inv t p0 ms0 v0 \<and> Next_iter d v0 = Inr (Exit x)"
    by (rule Next_loop_exit [where I = "Next_inv t p0 ms0", OF assms]) (rule Next_inv_step)
  then obtain v0 where "Next_inv t p0 ms0 v0" "Next_iter d v0 = Inr (Exit x)" by blast
  then show ?thesis by (rule Next_inv_exit)
qed

lemma StringCursor_eqI: "text a = text b \<Longrightarrow> position a = position b \<Longrightarrow> (a :: StringCursor) = b"
  by simp

lemma Next_init_inv:
  assumes "cursorNext cur0 = Inr (c, True, cur1)"
  shows "Next_inv (text cur0) (position cur0) (lookaheadMatches r)
           (Next_init r (Position cur0) c cur1 row)"
  using cursorNext_ok [OF assms]
  by (simp add: Next_inv_def Next_init_def past_def slots_ok_def Position_def)

text \<open>\<open>Next\<close> unfolded for an engine with a cursor that is not at the end of its text.\<close>

lemma Next_unfold:
  assumes "cursor r = Some cur0" "cursorNext cur0 = Inr (c, True, cur1)"
  shows "Next r =
    (case at (rows (forwardTable (data r))) (sint rbbiStateStart) of
       Inl e \<Rightarrow> Some (Inl e)
     | Inr row \<Rightarrow>
         (case Next_loop (data r) (Next_init r (Position cur0) c cur1 row) of
            None \<Rightarrow> None
          | Some (Inl e) \<Rightarrow> Some (Inl e)
          | Some (Inr x) \<Rightarrow> Some (Next_finish r (Position cur0) x)))"
  using assms by (simp add: Next_def Let_def)

lemma Next_at_end:
  assumes "cursor r = Some cur0" "int (length (text cur0)) \<le> position cur0"
  shows "Next r = Some (Inr (- 1, False, r\<lparr>ruleStatusIndex := 0, cursor := Some cur0\<rparr>))"
  using assms by (simp add: Next_def Let_def cursorNext_at_end)

text \<open>The code after the loop, from what the loop hands to it.\<close>

lemma Next_finish_post:
  assumes ex: "Next_exit_ok (text cur0) (position cur0) ms0 x"
    and nx: "cursorNext cur0 = Inr (c, True, cur1)"
    and fin: "Next_finish r (position cur0) x = Inr (pos, ok, r')"
  shows "ok \<and> slots_ok (text cur0) (position cur0) ms0 (lookaheadMatches r') \<and>
         ((position cur0 < pos \<and> cursor r' = Some (cur0\<lparr>position := pos\<rparr>)) \<or> pos \<in> set ms0)"
proof (cases x)
  case (Returned saved v)
  with fin have r': "pos = saved" "ok" "r' = store r v" by (simp_all add: Next_finish_def)
  from ex Returned have e: "0 \<le> saved" "saved \<in> set ms0 \<or> past (text cur0) (position cur0) saved"
    "text (v_cursor v) = text cur0" "slots_ok (text cur0) (position cur0) ms0 (v_matches v)"
    "saved \<le> int (length (text cur0)) \<longrightarrow> position (v_cursor v) = saved"
    by (simp_all add: Next_exit_ok_def split: if_splits)
  show ?thesis
  proof (cases "saved \<in> set ms0")
    case True
    then show ?thesis using r' e(4) by (simp add: store_def)
  next
    case False
    with e have p: "past (text cur0) (position cur0) saved" by simp
    then have "position (v_cursor v) = saved" using e(5) by (simp add: past_def)
    then have "v_cursor v = cur0\<lparr>position := saved\<rparr>" using e(3) by (intro StringCursor_eqI) simp_all
    then show ?thesis using r' e(4) p by (simp add: store_def past_def)
  qed
next
  case (Broke v)
  with ex have inv: "Next_inv (text cur0) (position cur0) ms0 v" by (simp add: Next_exit_ok_def)
  then have tx: "text (v_cursor v) = text cur0"
    and sl: "slots_ok (text cur0) (position cur0) ms0 (v_matches v)"
    and rs: "v_result v = position cur0 \<or> past (text cur0) (position cur0) (v_result v)"
    by (simp_all add: Next_inv_def)
  from cursorNext_ok [OF nx] have c1: "text cur1 = text cur0" "0 \<le> position cur0"
    "position cur0 < position cur1" "position cur1 \<le> int (length (text cur0))" by simp_all
  show ?thesis
  proof (cases "v_result v = position cur0")
    case True
    have "snd (SetPosition (v_cursor v) (position cur0)) = cur0"
      using tx c1 by (intro StringCursor_eqI) (simp_all add: SetPosition_def)
    moreover have "snd (SetPosition cur1 (position cur1)) = cur1"
      using c1 by (simp add: SetPosition_def)
    ultimately have "Next_finish r (position cur0) x =
       Inr (position cur1, True, store r (v\<lparr>v_status := 0, v_cursor := cur1\<rparr>))"
      using Broke True nx by (simp add: Next_finish_def bindP_def Position_def)
    with fin have r': "pos = position cur1" "ok" "r' = store r (v\<lparr>v_status := 0, v_cursor := cur1\<rparr>)"
      by simp_all
    have "cur1 = cur0\<lparr>position := position cur1\<rparr>" using c1 by (intro StringCursor_eqI) simp_all
    then show ?thesis using r' sl c1 by (simp add: store_def)
  next
    case False
    with rs have p: "past (text cur0) (position cur0) (v_result v)" by simp
    then have sp: "snd (SetPosition (v_cursor v) (v_result v)) = cur0\<lparr>position := v_result v\<rparr>"
      using tx c1 by (intro StringCursor_eqI) (simp_all add: SetPosition_def past_def)
    from fin Broke False have r': "pos = v_result v" "ok"
      "r' = store r (v\<lparr>v_cursor := snd (SetPosition (v_cursor v) (v_result v))\<rparr>)"
      by (auto simp: Next_finish_def)
    show ?thesis using r' sp sl p by (simp add: store_def past_def)
  qed
qed

text \<open>What \<open>Next\<close> returns, for every engine and every cursor.\<close>

lemma Next_post:
  assumes nx: "Next r = Some (Inr (pos, ok, r'))"
  shows "\<exists>cur. cursor r = Some cur \<and>
     (if int (length (text cur)) \<le> position cur
      then \<not> ok \<and> pos = - 1 \<and> r' = r\<lparr>ruleStatusIndex := 0\<rparr>
      else ok \<and> slots_ok (text cur) (position cur) (lookaheadMatches r) (lookaheadMatches r') \<and>
           ((position cur < pos \<and> cursor r' = Some (cur\<lparr>position := pos\<rparr>)) \<or>
            pos \<in> set (lookaheadMatches r)))"
proof (cases "cursor r")
  case None
  with nx show ?thesis by (simp add: Next_def)
next
  case (Some cur0)
  show ?thesis
  proof (cases "int (length (text cur0)) \<le> position cur0")
    case True
    have "r\<lparr>ruleStatusIndex := 0, cursor := Some cur0\<rparr> = r\<lparr>ruleStatusIndex := 0\<rparr>"
      using Some by simp
    with Next_at_end [OF Some True] nx Some True show ?thesis by simp
  next
    case False
    then obtain c ok1 cur1 e where cn: "cursorNext cur0 = Inr (c, ok1, cur1) \<or> cursorNext cur0 = Inl e"
      by (cases "cursorNext cur0") auto
    with nx Some have cn': "cursorNext cur0 = Inr (c, ok1, cur1)" by (auto simp: Next_def)
    have ok1: ok1 using cn' False by (auto simp: cursorNext_def split_beta split: if_splits)
    with cn' have cn1: "cursorNext cur0 = Inr (c, True, cur1)" by simp
    from nx [unfolded Next_unfold [OF Some cn1]] obtain row x where
      row: "at (rows (forwardTable (data r))) (sint rbbiStateStart) = Inr row"
      and lp: "Next_loop (data r) (Next_init r (Position cur0) c cur1 row) = Some (Inr x)"
      and fin: "Next_finish r (Position cur0) x = Inr (pos, ok, r')"
      by (auto split: sum.splits option.splits)
    from Next_loop_post [OF lp Next_init_inv [OF cn1]]
    have "Next_exit_ok (text cur0) (position cur0) (lookaheadMatches r) x" .
    from Next_finish_post [OF this cn1 fin [unfolded Position_def]] Some False
    show ?thesis by simp
  qed
qed

text \<open>
  Termination of the loop of \<open>Next\<close>. The mode \<open>rbbiRunModeEnd\<close> is only entered
  once the cursor is exhausted; with that, every turn of the loop lowers the measure.
\<close>

definition Next_reach :: "nextVars \<Rightarrow> bool" where
  "Next_reach v \<longleftrightarrow> (v_mode v = rbbiRunModeEnd \<longrightarrow> \<not> v_nextOk v)"

definition Next_measure :: "nextVars \<Rightarrow> nat" where
  "Next_measure v =
    (if \<not> v_nextOk v then (if v_mode v = rbbiRunModeEnd then 0 else 1)
     else 2 + 2 * nat (int (length (text (v_cursor v))) - position (v_cursor v))
          + (if v_mode v = rbbiRunModeStart then 1 else 0))"

lemma Next_iter_decreases:
  assumes reach: "Next_reach v" and it: "Next_iter d v = Inr (Continue v')"
  shows "Next_reach v' \<and> Next_measure v' < Next_measure v"
proof -
  from it obtain v1 v2 v3 v4 v5 where
    s: "iter_endOfInput v = Some v1" "iter_category d v1 = Inr v2" "iter_transition d v2 = Inr v3"
       "iter_accepting d v3 = Inr (Continue v4)" "iter_lookahead d v4 = Inr v5"
       "iter_advance v5 = Inr (Continue v')"
    by (rule Next_iter_Continue)
  note f1 = iter_endOfInput_frame [OF s(1)] and f2 = iter_category_frame [OF s(2)]
    and f3 = iter_transition_frame [OF s(3)] and f4 = iter_accepting_Continue [OF s(4)]
    and f5 = iter_lookahead_frame [OF s(5)] and f6 = iter_advance_Continue [OF s(6)]
  have c5: "v_cursor v5 = v_cursor v" and n5: "v_nextOk v5 = v_nextOk v"
    and m5: "v_mode v5 = (if v_nextOk v then v_mode v else rbbiRunModeEnd)"
    using f1 f2 f3 f4 f5 by simp_all
  show ?thesis
  proof (cases "v_nextOk v")
    case False
    then have "v_mode v \<noteq> rbbiRunModeEnd" using s(1) by (auto simp: iter_endOfInput_def)
    moreover have "v_mode v' = rbbiRunModeEnd \<and> \<not> v_nextOk v'"
      using f6 m5 n5 False by auto
    ultimately show ?thesis using False by (simp add: Next_reach_def Next_measure_def)
  next
    case True
    with reach have ne: "v_mode v \<noteq> rbbiRunModeEnd" by (auto simp: Next_reach_def)
    from True m5 have m5': "v_mode v5 = v_mode v" by simp
    show ?thesis
    proof (cases "v_mode v = rbbiRunModeRun")
      case False
      with ne have st: "v_mode v = rbbiRunModeStart" by (cases "v_mode v") simp_all
      then have "v_cursor v' = v_cursor v \<and> v_nextOk v' \<and> v_mode v' = rbbiRunModeRun"
        using f6 m5' c5 n5 True by auto
      then show ?thesis using True st by (simp add: Next_reach_def Next_measure_def)
    next
      case run: True
      with f6 m5' c5 obtain c where cn: "cursorNext (v_cursor v) = Inr (c, v_nextOk v', v_cursor v')"
        and mr: "v_mode v' = rbbiRunModeRun" by auto
      show ?thesis
      proof (cases "v_nextOk v'")
        case False
        then show ?thesis using True mr by (simp add: Next_reach_def Next_measure_def)
      next
        case ok: True
        with cn have "cursorNext (v_cursor v) = Inr (c, True, v_cursor v')" by simp
        from cursorNext_ok [OF this] show ?thesis
          using True ok mr run by (simp add: Next_reach_def Next_measure_def)
      qed
    qed
  qed
qed

lemma Next_loop_terminates: "Next_reach v \<Longrightarrow> \<exists>y. Next_loop d v = Some y"
proof (induction "Next_measure v" arbitrary: v rule: less_induct)
  case less
  show ?case
  proof (cases "Next_iter d v")
    case (Inl e)
    then show ?thesis by (subst Next_loop.simps) simp
  next
    case (Inr s)
    show ?thesis
    proof (cases s)
      case (Continue v')
      from Next_iter_decreases [OF less.prems Inr [unfolded Continue]]
      have "Next_reach v'" "Next_measure v' < Next_measure v" by simp_all
      from less.hyps [OF this(2) this(1)] obtain y where "Next_loop d v' = Some y" ..
      then show ?thesis using Inr Continue by (subst Next_loop.simps) simp
    next
      case (Exit x)
      then show ?thesis using Inr by (subst Next_loop.simps) simp
    qed
  qed
qed

lemma Next_terminates: "\<exists>y. Next r = Some y"
proof (cases "cursor r")
  case None
  then show ?thesis by (simp add: Next_def)
next
  case (Some cur0)
  show ?thesis
  proof (cases "cursorNext cur0")
    case (Inl e)
    then show ?thesis using Some by (simp add: Next_def Let_def)
  next
    case (Inr a)
    obtain c ok cur1 where a: "a = (c, ok, cur1)" by (cases a)
    show ?thesis
    proof (cases ok)
      case False
      then show ?thesis using Some Inr a by (simp add: Next_def Let_def)
    next
      case True
      with Inr a have cn: "cursorNext cur0 = Inr (c, True, cur1)" by simp
      show ?thesis
      proof (cases "at (rows (forwardTable (data r))) (sint rbbiStateStart)")
        case (Inl e)
        then show ?thesis unfolding Next_unfold [OF Some cn] by simp
      next
        case (Inr row)
        have "Next_reach (Next_init r (Position cur0) c cur1 row)"
          by (simp add: Next_reach_def Next_init_def)
        from Next_loop_terminates [OF this] obtain y where
          "Next_loop (data r) (Next_init r (Position cur0) c cur1 row) = Some y" ..
        then show ?thesis unfolding Next_unfold [OF Some cn] using Inr
          by (cases y) simp_all
      qed
    qed
  qed
qed

section \<open>Test data\<close>

text \<open>
  A small trie for ASCII text: the code points below \<open>0x40\<close> (digits, punctuation) have
  category 3, those from \<open>0x40\<close> to \<open>0x7F\<close> (letters) category 4; the high value is 5
  and the error value 0.
\<close>

definition asciiTrie :: ucpTrie where
  "asciiTrie = \<lparr>trieType = ucpTrieTypeFast, valueWidth = ucpTrieValueWidth16, dataLength = 130,
     index3NullOffset = 0, dataNullOffset = 0, highStart = 0x10000, shifted12HighStart = 0,
     nullValueOffset = 0, index = [0, 64],
     data8 = [], data16 = replicate 64 3 @ replicate 64 4 @ [5, 0], data32 = [], nullValue = 0\<rparr>"

definition mkRow :: "8 word \<Rightarrow> 8 word \<Rightarrow> 8 word \<Rightarrow> 8 word list \<Rightarrow> rbbiStateTableRow" where
  "mkRow a l t ns = \<lparr>accepting = a, lookahead = l, tagIndex = t, nextStates = ns\<rparr>"

definition mkTable :: "32 word \<Rightarrow> rbbiStateTableRow list \<Rightarrow> rbbiStateTable" where
  "mkTable n rs = \<lparr>stateCount = of_nat (length rs), rowLength = 6, dictCategoriesStart = 6,
     lookaheadResultsSize = n, lookaheadHardBreak = False, bofRequired = False,
     tableValueWidth = 0, rows = rs\<rparr>"

text \<open>
  Rules with a lookahead: a digit leads to state 2, the slash position of lookahead 2,
  which further digits re-enter; a letter leads to state 3, which completes lookahead 2,
  from state 2 and from the start state alike. Every other transition stops. The reverse
  table stops after one rune.
\<close>

definition lookData :: rbbiData where
  "lookData = \<lparr>
     forwardTable = mkTable 3 [mkRow 0 0 0 [0,0,0,0,0,0], mkRow 0 0 0 [0,0,0,2,3,0],
                               mkRow 0 2 0 [0,0,0,2,3,0], mkRow 2 0 9 [0,0,0,0,0,0]],
     reverseTable = mkTable 0 [mkRow 0 0 0 [0,0,0,0,0,0], mkRow 0 0 0 [0,0,0,0,0,0]],
     trie = asciiTrie, categoryCount = 6\<rparr>"

text \<open>
  Rules that break after every second rune, and at the end of the text; the reverse
  table stops after one rune.
\<close>

definition pairData :: rbbiData where
  "pairData = \<lparr>
     forwardTable = mkTable 0 [mkRow 0 0 0 [0,0,0,0,0,0], mkRow 0 0 0 [0,0,0,2,2,0],
                               mkRow 0 0 0 [0,3,0,3,3,0], mkRow 1 0 7 [0,0,0,0,0,0]],
     reverseTable = mkTable 0 [mkRow 0 0 0 [0,0,0,0,0,0], mkRow 0 0 0 [0,0,0,0,0,0]],
     trie = asciiTrie, categoryCount = 6\<rparr>"

text \<open>Rules that stop at once, without accepting anything.\<close>

definition stopData :: rbbiData where
  "stopData = \<lparr>
     forwardTable = mkTable 0 [mkRow 0 0 0 [0,0,0,0,0,0], mkRow 0 0 5 [0,0,0,0,0,0]],
     reverseTable = mkTable 0 [mkRow 0 0 0 [0,0,0,0,0,0], mkRow 0 0 0 [0,0,0,0,0,0]],
     trie = asciiTrie, categoryCount = 6\<rparr>"

text \<open>An engine on the bytes \<open>t\<close>, fresh from \<open>newRBBI\<close>, with its cursor at \<open>p\<close>.\<close>

definition engineAt :: "rbbiData \<Rightarrow> byte list \<Rightarrow> int \<Rightarrow> RBBI" where
  "engineAt d t p = SetCursor (newRBBI d) \<lparr>text = t, position = p\<rparr>"

text \<open>The position, the flag and the observable state of the engine in a result.\<close>

definition shown ::
  "(panic + (int \<times> bool \<times> RBBI)) option \<Rightarrow>
   (panic + (int \<times> bool \<times> StringCursor option \<times> 32 word \<times> int list)) option" where
  "shown res = map_option (map_sum id
     (\<lambda>(p, ok, r). (p, ok, cursor r, ruleStatusIndex r, lookaheadMatches r))) res"


lemma shown_SomeD:
  "shown res = Some (Inr (p, ok, c, s, m)) \<Longrightarrow>
   \<exists>r'. res = Some (Inr (p, ok, r')) \<and> cursor r' = c \<and> ruleStatusIndex r' = s \<and>
        lookaheadMatches r' = m"
  by (cases res) (auto simp: shown_def map_sum_def split: sum.splits)

section \<open>Claims about Next\<close>

text \<open>
  C1 as stated fails. An engine fresh from \<open>newRBBI\<close> holds 0 in every lookahead slot,
  which the completion test \<^verbatim>\<open>lookaheadResult >= 0\<close> takes for a saved position. With
  rules whose first letter completes lookahead 2, \<open>Next\<close> entered at offset 1 of
  \<open>ab\<close> returns \<open>(0, true)\<close> and leaves the cursor at 0: the position is not greater
  than the entry position.
\<close>

theorem Next_returns_initial_slot:
  "shown (Next (engineAt lookData [0x61, 0x62] 1)) =
     Some (Inr (0, True, Some \<lparr>text = [0x61, 0x62], position = 0\<rparr>, 9, [0, 0, 0]))"
  by code_simp

text \<open>
  C1 (as amended). \<open>Next\<close> always returns (or panics); it returns \<open>ok = false\<close>
  if and only if the cursor was at the end of the text on entry, and then leaves the
  cursor as it was; when it returns \<open>ok = true\<close>, either the position is greater than
  the entry position and the cursor is left at exactly that position, or the position is
  a value that a lookahead slot held on entry.
\<close>

theorem Next_result:
  "(\<exists>y. Next r = Some y) \<and>
   (\<forall>pos ok r'. Next r = Some (Inr (pos, ok, r')) \<longrightarrow>
      (\<exists>cur. cursor r = Some cur \<and>
         (\<not> ok \<longleftrightarrow> int (length (text cur)) \<le> position cur) \<and>
         (\<not> ok \<longrightarrow> cursor r' = Some cur) \<and>
         (ok \<longrightarrow> (position cur < pos \<and> cursor r' = Some (cur\<lparr>position := pos\<rparr>)) \<or>
                 pos \<in> set (lookaheadMatches r))))"
proof (intro conjI allI impI)
  show "\<exists>y. Next r = Some y" by (rule Next_terminates)
next
  fix pos ok r'
  assume "Next r = Some (Inr (pos, ok, r'))"
  from Next_post [OF this] obtain cur where c: "cursor r = Some cur"
    and p: "if int (length (text cur)) \<le> position cur
      then \<not> ok \<and> pos = - 1 \<and> r' = r\<lparr>ruleStatusIndex := 0\<rparr>
      else ok \<and> slots_ok (text cur) (position cur) (lookaheadMatches r) (lookaheadMatches r') \<and>
           ((position cur < pos \<and> cursor r' = Some (cur\<lparr>position := pos\<rparr>)) \<or>
            pos \<in> set (lookaheadMatches r))" by blast
  show "\<exists>cur. cursor r = Some cur \<and>
         (\<not> ok \<longleftrightarrow> int (length (text cur)) \<le> position cur) \<and>
         (\<not> ok \<longrightarrow> cursor r' = Some cur) \<and>
         (ok \<longrightarrow> (position cur < pos \<and> cursor r' = Some (cur\<lparr>position := pos\<rparr>)) \<or>
                 pos \<in> set (lookaheadMatches r))"
    using c p by (intro exI [of _ cur]) (auto split: if_splits)
qed

theorem Next_result_witness:
  "\<exists>r'. Next (engineAt pairData [0x61, 0x62, 0x63, 0x64] 0) = Some (Inr (2, True, r')) \<and>
        cursor r' = Some \<lparr>text = [0x61, 0x62, 0x63, 0x64], position = 2\<rparr>"
proof -
  let ?R = "engineAt pairData [0x61, 0x62, 0x63, 0x64] 0"
  have "map_option (map_sum id (\<lambda>(p, ok, r). (p, ok))) (Next ?R) = Some (Inr (2, True))"
    by code_simp
  then obtain r' where r': "Next ?R = Some (Inr (2, True, r'))"
    by (cases "Next ?R") (auto simp: map_sum_def split: sum.splits)
  have c: "cursor ?R = Some \<lparr>text = [0x61, 0x62, 0x63, 0x64], position = 0\<rparr>"
    and m: "lookaheadMatches ?R = []"
    by (simp_all add: engineAt_def SetCursor_def newRBBI_def pairData_def mkTable_def)
  from Next_result [of ?R] r' c m
  have "cursor r' = Some \<lparr>text = [0x61, 0x62, 0x63, 0x64], position = 2\<rparr>" by auto
  with r' show ?thesis by blast
qed

section \<open>Claims about the lookahead slots\<close>

text \<open>
  C2 as stated fails. \<open>newRBBI\<close> fills the slots with 0, which counts as a saved
  position, and \<open>Next\<close> clears nothing: the slot written while scanning \<open>12345\<close>
  still holds 5 in the next call, on the text \<open>ab\<close>, and decides its result.
\<close>

theorem Next_reads_slot_of_earlier_call:
  "lookaheadMatches (newRBBI lookData) = [0, 0, 0] \<and>
   shown (Next (engineAt lookData [0x31, 0x32, 0x33, 0x34, 0x35] 0)) =
     Some (Inr (1, True, Some \<lparr>text = [0x31, 0x32, 0x33, 0x34, 0x35], position = 1\<rparr>, 0,
                [0, 0, 5])) \<and>
   shown (case Next (engineAt lookData [0x31, 0x32, 0x33, 0x34, 0x35] 0) of
            Some (Inr (p, ok, r)) \<Rightarrow> Next (SetCursor r (NewStringCursor [0x61, 0x62]))
          | _ \<Rightarrow> None) =
     Some (Inr (5, True, Some \<lparr>text = [0x61, 0x62], position = 1\<rparr>, 9, [0, 0, 5]))"
  by code_simp

text \<open>
  C2 (as amended). \<open>Next\<close> never clears \<open>lookaheadMatches\<close>. \<open>newRBBI\<close> allocates
  the array with 0 in every slot; the scan starts with the slots as the engine holds them;
  and when \<open>Next\<close> returns, the array has its length at entry and every slot holds
  either its value at entry or a cursor position recorded during this call (greater than
  the entry position, at most the length of the text).
\<close>

theorem lookaheadMatches_never_cleared:
  "lookaheadMatches (newRBBI d) = replicate (unat (lookaheadResultsSize (forwardTable d))) 0 \<and>
   v_matches (Next_init r p c cur0 row) = lookaheadMatches r \<and>
   (\<forall>pos ok r' cur. Next r = Some (Inr (pos, ok, r')) \<and> cursor r = Some cur \<longrightarrow>
      length (lookaheadMatches r') = length (lookaheadMatches r) \<and>
      (\<forall>i < length (lookaheadMatches r).
         lookaheadMatches r' ! i = lookaheadMatches r ! i \<or>
         (position cur < lookaheadMatches r' ! i \<and>
          lookaheadMatches r' ! i \<le> int (length (text cur)))))"
proof -
  have a: "lookaheadMatches (newRBBI d) = replicate (unat (lookaheadResultsSize (forwardTable d))) 0"
    by (simp add: newRBBI_def)
  have b: "v_matches (Next_init r p c cur0 row) = lookaheadMatches r"
    by (simp add: Next_init_def)
  have c: "length (lookaheadMatches r') = length (lookaheadMatches r) \<and>
      (\<forall>i < length (lookaheadMatches r).
         lookaheadMatches r' ! i = lookaheadMatches r ! i \<or>
         (position cur < lookaheadMatches r' ! i \<and>
          lookaheadMatches r' ! i \<le> int (length (text cur))))"
    if nx: "Next r = Some (Inr (pos, ok, r'))" and cu: "cursor r = Some cur" for pos ok r' cur
  proof (cases "int (length (text cur)) \<le> position cur")
    case True
    with Next_post [OF nx] cu show ?thesis by auto
  next
    case False
    with Next_post [OF nx] cu
    have "slots_ok (text cur) (position cur) (lookaheadMatches r) (lookaheadMatches r')" by auto
    then show ?thesis by (simp add: slots_ok_def past_def)
  qed
  show ?thesis using a b c by blast
qed

theorem lookaheadMatches_never_cleared_witness:
  "lookaheadMatches (newRBBI lookData) = [0, 0, 0] \<and>
   (\<exists>r'. Next (engineAt lookData [0x31, 0x32, 0x33] 0) = Some (Inr (1, True, r')) \<and>
      length (lookaheadMatches r') = 3 \<and>
      lookaheadMatches r' ! 0 = 0 \<and> lookaheadMatches r' ! 1 = 0 \<and>
      (lookaheadMatches r' ! 2 = 0 \<or> 0 < lookaheadMatches r' ! 2 \<and> lookaheadMatches r' ! 2 \<le> 3))"
proof -
  let ?R = "engineAt lookData [0x31, 0x32, 0x33] 0"
  have "shown (Next ?R) = Some (Inr (1, True, Some \<lparr>text = [0x31, 0x32, 0x33], position = 1\<rparr>, 0,
                [0, 0, 3]))"
    by code_simp
  from shown_SomeD [OF this] obtain r' where r': "Next ?R = Some (Inr (1, True, r'))"
    and m': "lookaheadMatches r' = [0, 0, 3]" by blast
  have c: "cursor ?R = Some \<lparr>text = [0x31, 0x32, 0x33], position = 0\<rparr>"
    by (simp add: engineAt_def SetCursor_def)
  have m: "lookaheadMatches ?R = [0, 0, 0]"
    by code_simp
  have "replicate (unat (lookaheadResultsSize (forwardTable lookData))) (0 :: int) = [0, 0, 0]"
    by code_simp
  then have n: "lookaheadMatches (newRBBI lookData) = [0, 0, 0]"
    using lookaheadMatches_never_cleared [of lookData] by simp
  from lookaheadMatches_never_cleared [of lookData ?R] r' c m m' n
  show ?thesis by (intro conjI exI [of _ r']) simp_all
qed

text \<open>
  The conversions of a \<^verbatim>\<open>uint8\<close> table entry keep its value: \<^verbatim>\<open>int16(x)\<close>,
  \<^verbatim>\<open>uint32(int16(x))\<close> and \<^verbatim>\<open>uint32(x)\<close>.
\<close>

lemma casts_nat:
  "\<forall>n\<in>set [0..<256].
     sint (ucast (of_nat n :: 8 word) :: 16 word) = int n \<and>
     uint (scast (ucast (of_nat n :: 8 word) :: 16 word) :: 32 word) = int n \<and>
     uint (ucast (of_nat n :: 8 word) :: 32 word) = int n \<and>
     uint (of_nat n :: 8 word) = int n"
  by code_simp

lemma casts:
  fixes a :: "8 word"
  shows "sint (ucast a :: 16 word) = uint a"
    and "uint (scast (ucast a :: 16 word) :: 32 word) = uint a"
    and "uint (ucast a :: 32 word) = uint a"
proof -
  have "unat a < 256" using unsigned_less [of a, where ?'a = nat] by simp
  then have "unat a \<in> set [0..<256]" by simp
  from casts_nat [rule_format, OF this]
  show "sint (ucast a :: 16 word) = uint a"
    and "uint (scast (ucast a :: 16 word) :: 32 word) = uint a"
    and "uint (ucast a :: 32 word) = uint a"
    by simp_all
qed


lemma acc16_le: "(ucast (a :: 8 word) :: 16 word) \<le>s rbbiAcceptingUnconditional \<longleftrightarrow> uint a \<le> 1"
  by (simp add: word_sle_eq rbbiAcceptingUnconditional_def casts)



lemma size_le_ucast: "(n :: 32 word) \<le> ucast (a :: 8 word) \<longleftrightarrow> uint n \<le> uint a"
  by (simp add: word_le_def casts)

text \<open>
  Rules that need the beginning-of-input step: it is accepted with tag 5, which sets the
  rule status but, in the mode \<open>rbbiRunModeStart\<close>, no result; then the machine stops.
\<close>

definition bofData :: rbbiData where
  "bofData = \<lparr>
     forwardTable = (mkTable 0 [mkRow 0 0 0 [0,0,0,0,0,0], mkRow 0 0 0 [0,0,2,0,0,0],
                                mkRow 1 0 5 [0,0,0,0,0,0]])\<lparr>bofRequired := True\<rparr>,
     reverseTable = mkTable 0 [mkRow 0 0 0 [0,0,0,0,0,0], mkRow 0 0 0 [0,0,0,0,0,0]],
     trie = asciiTrie, categoryCount = 6\<rparr>"

section \<open>Claims about the forced advance and the lookahead completion\<close>

lemma Next_finish_forced:
  assumes inv: "Next_inv (text cur0) (position cur0) ms0 v"
    and nx: "cursorNext cur0 = Inr (c, True, cur1)"
    and res: "v_result v = position cur0"
  shows "snd (SetPosition (v_cursor v) (position cur0)) = cur0 \<and>
         Next_finish r (position cur0) (Broke v) =
           Inr (position cur1, True, store r (v\<lparr>v_status := 0, v_cursor := cur1\<rparr>))"
proof -
  from inv have tx: "text (v_cursor v) = text cur0" by (simp add: Next_inv_def)
  from cursorNext_ok [OF nx] have c1: "text cur1 = text cur0" "0 \<le> position cur0"
    "position cur0 < position cur1" "position cur1 \<le> int (length (text cur0))" by simp_all
  have a: "snd (SetPosition (v_cursor v) (position cur0)) = cur0"
    using tx c1 by (intro StringCursor_eqI) (simp_all add: SetPosition_def)
  moreover have "snd (SetPosition cur1 (position cur1)) = cur1"
    using c1 by (simp add: SetPosition_def)
  ultimately show ?thesis
    using res nx by (simp add: Next_finish_def bindP_def Position_def)
qed

text \<open>
  C6. When the loop of \<open>Next\<close> ends by \<^verbatim>\<open>break\<close> with \<open>result\<close> still equal to
  the entry position, \<open>Next\<close> puts the cursor back to the entry position
  (\<open>SetPosition\<close> yields the cursor of entry), consumes exactly one code point (the
  cursor \<open>cur1\<close> that \<open>cursor.Next()\<close> gives at entry) and returns the position after
  it with \<open>ruleStatusIndex\<close> 0. In the code after the loop, a failing
  \<open>cursor.Next()\<close> gives \<open>ok = false\<close>.
\<close>

theorem Next_forced_advance:
  assumes "cursor r = Some cur0"
    and "cursorNext cur0 = Inr (c, True, cur1)"
    and "at (rows (forwardTable (data r))) (sint rbbiStateStart) = Inr row"
    and "Next_loop (data r) (Next_init r (Position cur0) c cur1 row) = Some (Inr (Broke v))"
    and "v_result v = Position cur0"
  shows "snd (SetPosition (v_cursor v) (Position cur0)) = cur0 \<and>
         (\<exists>r'. Next r = Some (Inr (position cur1, True, r')) \<and> cursor r' = Some cur1 \<and>
               ruleStatusIndex r' = 0) \<and>
         (\<forall>w p c' cur'. v_result w = p \<and>
              cursorNext (snd (SetPosition (v_cursor w) p)) = Inr (c', False, cur') \<longrightarrow>
              (\<exists>r'. Next_finish r p (Broke w) = Inr (- 1, False, r')))"
proof -
  have inv: "Next_inv (text cur0) (position cur0) (lookaheadMatches r) v"
    using Next_loop_post [OF assms(4) Next_init_inv [OF assms(2)]]
    by (simp add: Next_exit_ok_def)
  from Next_finish_forced [OF inv assms(2) assms(5) [unfolded Position_def], of r]
  have a: "snd (SetPosition (v_cursor v) (position cur0)) = cur0"
    and f: "Next_finish r (position cur0) (Broke v) =
           Inr (position cur1, True, store r (v\<lparr>v_status := 0, v_cursor := cur1\<rparr>))"
    by simp_all
  have "Next r = Some (Inr (position cur1, True, store r (v\<lparr>v_status := 0, v_cursor := cur1\<rparr>)))"
    unfolding Next_unfold [OF assms(1) assms(2)] using assms(3) assms(4) f
    by (simp add: Position_def)
  then have b: "\<exists>r'. Next r = Some (Inr (position cur1, True, r')) \<and> cursor r' = Some cur1 \<and>
               ruleStatusIndex r' = 0"
    by (simp add: store_def)
  have c: "\<exists>r'. Next_finish r p (Broke w) = Inr (- 1, False, r')"
    if "v_result w = p \<and> cursorNext (snd (SetPosition (v_cursor w) p)) = Inr (c', False, cur')"
    for w p c' cur'
    using that by (simp add: Next_finish_def bindP_def)
  show ?thesis using a b c by (simp add: Position_def) blast
qed

theorem Next_forced_advance_witness:
  "snd (SetPosition \<lparr>text = [0x61, 0x62], position = 1\<rparr> 0) = \<lparr>text = [0x61, 0x62], position = 0\<rparr> \<and>
   (\<exists>r'. Next (engineAt bofData [0x61, 0x62] 0) = Some (Inr (1, True, r')) \<and>
      cursor r' = Some \<lparr>text = [0x61, 0x62], position = 1\<rparr> \<and> ruleStatusIndex r' = 0)"
proof -
  let ?R = "engineAt bofData [0x61, 0x62] 0"
  let ?c0 = "\<lparr>text = [0x61, 0x62], position = 0\<rparr>"
  let ?c1 = "\<lparr>text = [0x61, 0x62], position = 1\<rparr>"
  let ?row = "mkRow 0 0 0 [0,0,2,0,0,0]"
  let ?v = "\<lparr>v_c = 0x61, v_nextOk = True, v_category = 4, v_state = 0,
            v_row = mkRow 0 0 0 [0, 0, 0, 0, 0, 0],
            v_mode = rbbiRunModeRun, v_result = 0, v_dict = 0,
            v_matches = [], v_status = 5, v_cursor = ?c1\<rparr>"
  have h1: "cursor ?R = Some ?c0" by (simp add: engineAt_def SetCursor_def)
  have h2: "cursorNext ?c0 = Inr (0x61, True, ?c1)" by code_simp
  have h3: "at (rows (forwardTable (data ?R))) (sint rbbiStateStart) = Inr ?row" by code_simp
  have h4: "Next_loop (data ?R) (Next_init ?R (Position ?c0) 0x61 ?c1 ?row) = Some (Inr (Broke ?v))"
    by code_simp
  have h5: "v_result ?v = Position ?c0" by (simp add: Position_def)
  from Next_forced_advance [OF h1 h2 h3 h4 h5] show ?thesis by (simp add: Position_def)
qed





section \<open>The loop of safePrevious\<close>

lemma safePrevious_iter_cases:
  assumes "safePrevious_iter d v = Inr (broke, v')"
  shows "(broke \<and> p_cursor v' = p_cursor v \<and> p_ok v' = p_ok v \<and> p_state v' = rbbiStateStop) \<or>
         (\<not> broke \<and> (\<exists>c. cursorPrevious (p_cursor v) = Inr (c, p_ok v', p_cursor v')))"
  using assms
  by (auto simp: safePrevious_iter_def bindP_Inr Let_def split: if_splits)

text \<open>
  The invariant of the loop of \<open>safePrevious\<close> on the text \<open>t\<close>, entered below the
  position \<open>p\<close>: the cursor is at a position of the text below \<open>p\<close>, and at the start of
  the text once \<open>cursor.Previous()\<close> has failed.
\<close>

definition prev_inv :: "byte list \<Rightarrow> int \<Rightarrow> prevVars \<Rightarrow> bool" where
  "prev_inv t p v \<longleftrightarrow>
     text (p_cursor v) = t \<and> 0 \<le> position (p_cursor v) \<and> position (p_cursor v) < p \<and>
     p \<le> int (length t) \<and> (\<not> p_ok v \<longrightarrow> position (p_cursor v) = 0)"

lemma prev_inv_step:
  assumes inv: "prev_inv t p v" and ok: "p_ok v" and it: "safePrevious_iter d v = Inr (broke, v')"
  shows "prev_inv t p v'"
proof -
  from safePrevious_iter_cases [OF it] consider
    "p_cursor v' = p_cursor v" "p_ok v' = p_ok v"
    | c where "cursorPrevious (p_cursor v) = Inr (c, p_ok v', p_cursor v')" by auto
  then show ?thesis
  proof cases
    case 1
    then show ?thesis using inv ok by (simp add: prev_inv_def)
  next
    case 2
    show ?thesis
    proof (cases "p_ok v'")
      case True
      with 2 have "cursorPrevious (p_cursor v) = Inr (c, True, p_cursor v')" by simp
      from cursorPrevious_ok [OF this] inv True show ?thesis by (auto simp: prev_inv_def)
    next
      case False
      with 2 have "cursorPrevious (p_cursor v) = Inr (c, False, p_cursor v')" by simp
      from cursorPrevious_not_ok [OF this] inv show ?thesis by (auto simp: prev_inv_def)
    qed
  qed
qed

lemma safePrevious_loop_post:
  assumes run: "safePrevious_loop d v = Some (Inr v')" and init: "prev_inv t p v"
  shows "prev_inv t p v'"
proof -
  define P where "P = (\<lambda>d0 w (y :: (panic + prevVars)).
    d0 = d \<longrightarrow> prev_inv t p w \<longrightarrow> (\<forall>w'. y = Inr w' \<longrightarrow> prev_inv t p w'))"
  have "P d v (Inr v')"
  proof (rule safePrevious_loop.raw_induct [where P = P, OF _ run])
    fix loop d0 w y
    assume IH: "\<And>d1 w1 y1. loop d1 w1 = Some y1 \<Longrightarrow> P d1 w1 y1"
      and body: "(if \<not> p_ok w then Some (Inr w)
                  else case safePrevious_iter d0 w of Inl e \<Rightarrow> Some (Inl e)
                       | Inr (broke, v') \<Rightarrow> if broke then Some (Inr v') else loop d0 v') = Some y"
    show "P d0 w y"
      unfolding P_def
    proof (intro impI allI)
      fix w'
      assume d0: "d0 = d" and iw: "prev_inv t p w" and y: "y = Inr w'"
      show "prev_inv t p w'"
      proof (cases "p_ok w")
        case False
        with body y have "w' = w" by simp
        with iw show ?thesis by simp
      next
        case True
        show ?thesis
        proof (cases "safePrevious_iter d w")
          case (Inl e)
          with body True y d0 show ?thesis by simp
        next
          case (Inr a)
          obtain broke w1 where a: "a = (broke, w1)" by (cases a)
          from prev_inv_step [OF iw True Inr [unfolded a]] have i1: "prev_inv t p w1" .
          show ?thesis
          proof (cases broke)
            case True
            with body \<open>p_ok w\<close> Inr a y d0 have "w' = w1" by simp
            with i1 show ?thesis by simp
          next
            case False
            with body \<open>p_ok w\<close> Inr a d0 have "loop d w1 = Some y" by simp
            from IH [OF this] i1 y show ?thesis by (simp add: P_def)
          qed
        qed
      qed
    qed
  qed
  with init show ?thesis by (simp add: P_def)
qed

lemma safePrevious_loop_terminates:
  "\<exists>y. safePrevious_loop d v = Some y"
proof (induction "nat (position (p_cursor v)) + (if p_ok v then 1 else 0)" arbitrary: v
    rule: less_induct)
  case less
  show ?case
  proof (cases "p_ok v")
    case False
    then show ?thesis by (subst safePrevious_loop.simps) simp
  next
    case True
    show ?thesis
    proof (cases "safePrevious_iter d v")
      case (Inl e)
      then show ?thesis using True by (subst safePrevious_loop.simps) simp
    next
      case (Inr a)
      obtain broke v1 where a: "a = (broke, v1)" by (cases a)
      show ?thesis
      proof (cases broke)
        case True
        then show ?thesis using \<open>p_ok v\<close> Inr a by (subst safePrevious_loop.simps) simp
      next
        case False
        with safePrevious_iter_cases [OF Inr [unfolded a]] obtain c where
          cp: "cursorPrevious (p_cursor v) = Inr (c, p_ok v1, p_cursor v1)" by auto
        have "nat (position (p_cursor v1)) + (if p_ok v1 then 1 else 0)
              < nat (position (p_cursor v)) + (if p_ok v then 1 else 0)"
        proof (cases "p_ok v1")
          case True
          with cp have "cursorPrevious (p_cursor v) = Inr (c, True, p_cursor v1)" by simp
          from cursorPrevious_ok [OF this] True \<open>p_ok v\<close> show ?thesis by simp
        next
          case f: False
          with cp have "cursorPrevious (p_cursor v) = Inr (c, False, p_cursor v1)" by simp
          from cursorPrevious_not_ok [OF this] f \<open>p_ok v\<close> show ?thesis by simp
        qed
        from less [OF this] obtain y where "safePrevious_loop d v1 = Some y" ..
        then show ?thesis using \<open>p_ok v\<close> Inr a False by (subst safePrevious_loop.simps) simp
      qed
    qed
  qed
qed

lemma safePrevious_unfold:
  assumes "cursor r = Some cur0" "cursorPrevious (snd (SetPosition cur0 fromPosition)) = Inr (c, True, cur2)"
  shows "safePrevious r fromPosition =
    (case at (rows (reverseTable (data r))) (sint rbbiStateStart) of
       Inl e \<Rightarrow> Some (Inl e)
     | Inr row \<Rightarrow>
         (case safePrevious_loop (data r) (safePrevious_init c row cur2) of
            None \<Rightarrow> None
          | Some (Inl e) \<Rightarrow> Some (Inl e)
          | Some (Inr v) \<Rightarrow>
              Some (Inr (Position (p_cursor v), True, r\<lparr>cursor := Some (p_cursor v)\<rparr>))))"
  using assms by (simp add: safePrevious_def Let_def)

lemma safePrevious_at_start:
  assumes "cursor r = Some cur0" "position (snd (SetPosition cur0 fromPosition)) \<le> 0"
  shows "safePrevious r fromPosition =
         Some (Inr (- 1, False, r\<lparr>cursor := Some (snd (SetPosition cur0 fromPosition))\<rparr>))"
  using assms by (simp add: safePrevious_def Let_def cursorPrevious_def)

lemma cursorPrevious_cases:
  "(position c \<le> 0 \<and> cursorPrevious c = Inr (- 1, False, c)) \<or>
   (0 < position c \<and> int (length (text c)) < position c \<and> cursorPrevious c = Inl SliceOutOfRange) \<or>
   (0 < position c \<and> (\<exists>r c'. cursorPrevious c = Inr (r, True, c')))"
  by (auto simp: cursorPrevious_def split_beta)

lemma safePrevious_terminates: "\<exists>y. safePrevious r fromPosition = Some y"
proof (cases "cursor r")
  case None
  then show ?thesis by (simp add: safePrevious_def)
next
  case (Some cur0)
  let ?cur1 = "snd (SetPosition cur0 fromPosition)"
  from cursorPrevious_cases [of ?cur1] consider
    "position ?cur1 \<le> 0" | "cursorPrevious ?cur1 = Inl SliceOutOfRange"
    | c cur2 where "cursorPrevious ?cur1 = Inr (c, True, cur2)" by blast
  then show ?thesis
  proof cases
    case 1
    from safePrevious_at_start [OF Some 1] show ?thesis by simp
  next
    case 2
    then show ?thesis using Some by (simp add: safePrevious_def Let_def)
  next
    case 3
    show ?thesis
    proof (cases "at (rows (reverseTable (data r))) (sint rbbiStateStart)")
      case (Inl e)
      then show ?thesis unfolding safePrevious_unfold [OF Some 3] by simp
    next
      case (Inr row)
      from safePrevious_loop_terminates obtain y where
        "safePrevious_loop (data r) (safePrevious_init c row cur2) = Some y" ..
      then show ?thesis unfolding safePrevious_unfold [OF Some 3] using Inr
        by (cases y) simp_all
    qed
  qed
qed

text \<open>What \<open>safePrevious\<close> returns.\<close>

lemma safePrevious_post:
  assumes sp: "safePrevious r fromPosition = Some (Inr (pos, ok, r'))"
  shows "\<exists>cur0. cursor r = Some cur0 \<and>
     (if position (snd (SetPosition cur0 fromPosition)) \<le> 0
      then \<not> ok \<and> pos = - 1 \<and> r' = r\<lparr>cursor := Some (snd (SetPosition cur0 fromPosition))\<rparr>
      else ok \<and> (\<exists>cur. r' = r\<lparr>cursor := Some cur\<rparr> \<and> text cur = text cur0 \<and>
             pos = position cur \<and> 0 \<le> pos \<and>
             pos < position (snd (SetPosition cur0 fromPosition)) \<and>
             position (snd (SetPosition cur0 fromPosition)) \<le> int (length (text cur0))))"
proof (cases "cursor r")
  case None
  with sp show ?thesis by (simp add: safePrevious_def)
next
  case (Some cur0)
  let ?cur1 = "snd (SetPosition cur0 fromPosition)"
  from cursorPrevious_cases [of ?cur1] consider
    "position ?cur1 \<le> 0" | "0 < position ?cur1" "cursorPrevious ?cur1 = Inl SliceOutOfRange"
    | c cur2 where "0 < position ?cur1" "cursorPrevious ?cur1 = Inr (c, True, cur2)" by blast
  then show ?thesis
  proof cases
    case 1
    from safePrevious_at_start [OF Some 1] sp Some 1 show ?thesis by simp
  next
    case 2
    then show ?thesis using Some sp by (simp add: safePrevious_def Let_def)
  next
    case 3
    from sp [unfolded safePrevious_unfold [OF Some 3(2)]] obtain row v where
      lp: "safePrevious_loop (data r) (safePrevious_init c row cur2) = Some (Inr v)"
      and res: "pos = Position (p_cursor v)" "ok" "r' = r\<lparr>cursor := Some (p_cursor v)\<rparr>"
      by (auto split: sum.splits option.splits)
    from cursorPrevious_ok [OF 3(2)]
    have "prev_inv (text cur0) (position ?cur1) (safePrevious_init c row cur2)"
      by (simp add: prev_inv_def safePrevious_init_def SetPosition_text)
    from safePrevious_loop_post [OF lp this]
    have "prev_inv (text cur0) (position ?cur1) v" .
    then show ?thesis using Some 3(1) res
      by (auto simp: prev_inv_def Position_def)
  qed
qed

section \<open>Claims about safePrevious\<close>

text \<open>
  C10. \<open>safePrevious\<close> always returns (or panics). It returns \<open>ok = false\<close> exactly
  when the first \<open>cursor.Previous()\<close>, made after \<open>SetPosition(fromPosition)\<close>,
  fails, which for a position \<open>fromPosition\<close> of the text means that it is the start of
  the text. In every other case it returns \<open>ok = true\<close> with the final position of the
  cursor; when the loop ends because \<open>cursor.Previous()\<close> failed, without reaching the
  stop state, that position is 0.
\<close>

theorem safePrevious_result:
  "(\<exists>y. safePrevious r fromPosition = Some y) \<and>
   (\<forall>pos ok r'. safePrevious r fromPosition = Some (Inr (pos, ok, r')) \<longrightarrow>
      (\<exists>cur0. cursor r = Some cur0 \<and>
         (\<not> ok \<longleftrightarrow>
            (\<exists>c cur. cursorPrevious (snd (SetPosition cur0 fromPosition)) = Inr (c, False, cur))) \<and>
         (0 \<le> fromPosition \<and> fromPosition \<le> int (length (text cur0)) \<longrightarrow>
            (\<not> ok \<longleftrightarrow> fromPosition = 0)) \<and>
         (ok \<longrightarrow> (\<exists>cur. cursor r' = Some cur \<and> text cur = text cur0 \<and> pos = position cur \<and>
                        0 \<le> pos)) \<and>
         (\<forall>c cur2 row v.
            cursorPrevious (snd (SetPosition cur0 fromPosition)) = Inr (c, True, cur2) \<and>
            at (rows (reverseTable (data r))) (sint rbbiStateStart) = Inr row \<and>
            safePrevious_loop (data r) (safePrevious_init c row cur2) = Some (Inr v) \<and>
            \<not> p_ok v \<longrightarrow> pos = 0)))"
proof -
  have b: "\<exists>cur0. cursor r = Some cur0 \<and>
         (\<not> ok \<longleftrightarrow>
            (\<exists>c cur. cursorPrevious (snd (SetPosition cur0 fromPosition)) = Inr (c, False, cur))) \<and>
         (0 \<le> fromPosition \<and> fromPosition \<le> int (length (text cur0)) \<longrightarrow>
            (\<not> ok \<longleftrightarrow> fromPosition = 0)) \<and>
         (ok \<longrightarrow> (\<exists>cur. cursor r' = Some cur \<and> text cur = text cur0 \<and> pos = position cur \<and>
                        0 \<le> pos)) \<and>
         (\<forall>c cur2 row v.
            cursorPrevious (snd (SetPosition cur0 fromPosition)) = Inr (c, True, cur2) \<and>
            at (rows (reverseTable (data r))) (sint rbbiStateStart) = Inr row \<and>
            safePrevious_loop (data r) (safePrevious_init c row cur2) = Some (Inr v) \<and>
            \<not> p_ok v \<longrightarrow> pos = 0)"
    if sp: "safePrevious r fromPosition = Some (Inr (pos, ok, r'))" for pos ok r'
  proof -
    from safePrevious_post [OF sp] obtain cur0 where c0: "cursor r = Some cur0"
      and p: "if position (snd (SetPosition cur0 fromPosition)) \<le> 0
      then \<not> ok \<and> pos = - 1 \<and> r' = r\<lparr>cursor := Some (snd (SetPosition cur0 fromPosition))\<rparr>
      else ok \<and> (\<exists>cur. r' = r\<lparr>cursor := Some cur\<rparr> \<and> text cur = text cur0 \<and>
             pos = position cur \<and> 0 \<le> pos \<and>
             pos < position (snd (SetPosition cur0 fromPosition)) \<and>
             position (snd (SetPosition cur0 fromPosition)) \<le> int (length (text cur0)))"
      by blast
    let ?cur1 = "snd (SetPosition cur0 fromPosition)"
    have first: "(\<exists>c cur. cursorPrevious ?cur1 = Inr (c, False, cur)) \<longleftrightarrow> position ?cur1 \<le> 0"
      using cursorPrevious_cases [of ?cur1] by auto
    have c1: "\<not> ok \<longleftrightarrow> (\<exists>c cur. cursorPrevious ?cur1 = Inr (c, False, cur))"
      unfolding first using p by (auto split: if_splits)
    have c2: "\<not> ok \<longleftrightarrow> fromPosition = 0"
      if "0 \<le> fromPosition \<and> fromPosition \<le> int (length (text cur0))"
    proof -
      from that have "position ?cur1 = fromPosition" by (simp add: SetPosition_def)
      then show ?thesis using p that by (auto split: if_splits)
    qed
    have c3: "ok \<longrightarrow> (\<exists>cur. cursor r' = Some cur \<and> text cur = text cur0 \<and> pos = position cur \<and>
                        0 \<le> pos)"
      using p by (auto split: if_splits)
    have c4: "pos = 0"
      if h: "cursorPrevious ?cur1 = Inr (c, True, cur2) \<and>
            at (rows (reverseTable (data r))) (sint rbbiStateStart) = Inr row \<and>
            safePrevious_loop (data r) (safePrevious_init c row cur2) = Some (Inr v) \<and>
            \<not> p_ok v" for c cur2 row v
    proof -
      from h have cp: "cursorPrevious ?cur1 = Inr (c, True, cur2)"
        and lp: "safePrevious_loop (data r) (safePrevious_init c row cur2) = Some (Inr v)"
        and nok: "\<not> p_ok v" and row: "at (rows (reverseTable (data r))) (sint rbbiStateStart) = Inr row"
        by simp_all
      from sp [unfolded safePrevious_unfold [OF c0 cp]] row lp
      have pos: "pos = position (p_cursor v)" by (simp add: Position_def)
      from cursorPrevious_ok [OF cp]
      have "prev_inv (text cur0) (position ?cur1) (safePrevious_init c row cur2)"
        by (simp add: prev_inv_def safePrevious_init_def SetPosition_text)
      from safePrevious_loop_post [OF lp this] nok pos show ?thesis by (simp add: prev_inv_def)
    qed
    show ?thesis using c0 c1 c2 c3 c4 by blast
  qed
  show ?thesis using safePrevious_terminates b by blast
qed


text \<open>
  Rules like \<open>pairData\<close> with a reverse table that never reaches the stop state: the
  reverse scan runs to the start of the text.
\<close>

definition backData :: rbbiData where
  "backData = pairData\<lparr>
     reverseTable := mkTable 0 [mkRow 0 0 0 [0,0,0,0,0,0], mkRow 0 0 0 [1,1,1,1,1,1]]\<rparr>"

theorem safePrevious_result_witness:
  "\<exists>r'. safePrevious (engineAt backData [0x61, 0x62] 2) 2 = Some (Inr (0, True, r')) \<and>
        cursor r' = Some \<lparr>text = [0x61, 0x62], position = 0\<rparr>"
proof -
  let ?R = "engineAt backData [0x61, 0x62] 2"
  have "map_option (map_sum id (\<lambda>(p, ok, r). (p, ok))) (safePrevious ?R 2) = Some (Inr (0, True))"
    by code_simp
  then obtain r' where r': "safePrevious ?R 2 = Some (Inr (0, True, r'))"
    by (cases "safePrevious ?R 2") (auto simp: map_sum_def split: sum.splits)
  have c: "cursor ?R = Some \<lparr>text = [0x61, 0x62], position = 2\<rparr>"
    by (simp add: engineAt_def SetCursor_def)
  from safePrevious_result [of ?R 2] r' c
  obtain cur where "cursor r' = Some cur" "text cur = [0x61, 0x62]" "position cur = 0"
    by auto
  then have "cursor r' = Some \<lparr>text = [0x61, 0x62], position = 0\<rparr>" by simp
  with r' show ?thesis by blast
qed

section \<open>Previous\<close>






lemma SetPosition_None:
  "fst (SetPosition c p) = None \<longleftrightarrow> 0 \<le> p \<and> p \<le> int (length (text c))"
  by (auto simp: SetPosition_def)




section \<open>Rules without lookahead\<close>

text \<open>
  A state table without lookahead rows: every row accepts unconditionally or not at all
  (\<open>accepting\<close> is 0 or 1) and marks no slash position (\<open>lookahead\<close> is 0). On such a
  table \<open>Next\<close> neither reads nor writes \<open>lookaheadMatches\<close>.
\<close>

definition noLookahead :: "rbbiStateTable \<Rightarrow> bool" where
  "noLookahead tb \<longleftrightarrow> (\<forall>row\<in>set (rows tb). accepting row \<le> 1 \<and> lookahead row = 0)"


















section \<open>Break positions\<close>

text \<open>
  \<open>nextBreak d t p\<close> is the position that \<open>Next\<close> returns on a new engine with its
  cursor at \<open>p\<close>, if it returns one.
\<close>

definition nextBreak :: "rbbiData \<Rightarrow> byte list \<Rightarrow> int \<Rightarrow> int option" where
  "nextBreak d t p =
     (case Next (engineAt d t p) of
        Some (Inr (pos, True, r')) \<Rightarrow> Some pos
      | _ \<Rightarrow> None)"

text \<open>
  The break positions of a text, in the words of the specification: the positions that
  \<open>Next\<close> returns when it is called again and again from the start of the text, on a new
  engine (a text of \<open>n\<close> bytes has at most \<open>n\<close> of them), and the start of the text,
  which \<open>Previous\<close> reports as the break before the first of them.
\<close>

fun breaksFrom :: "nat \<Rightarrow> RBBI \<Rightarrow> int list" where
  "breaksFrom 0 r = []"
| "breaksFrom (Suc n) r =
     (case Next r of
        Some (Inr (pos, True, r')) \<Rightarrow> pos # breaksFrom n r'
      | _ \<Rightarrow> [])"

definition forwardBreaks :: "rbbiData \<Rightarrow> byte list \<Rightarrow> int list" where
  "forwardBreaks d t = breaksFrom (length t + 1) (engineAt d t 0)"

definition isBreak :: "rbbiData \<Rightarrow> byte list \<Rightarrow> int \<Rightarrow> bool" where
  "isBreak d t b \<longleftrightarrow> b = 0 \<or> b \<in> set (forwardBreaks d t)"
















section \<open>Safe restart points\<close>

text \<open>
  \<open>safePoint d t q\<close> is the position at which \<open>safePrevious\<close> stops when it is called
  for the position \<open>q\<close> of the text, if it returns one.
\<close>

definition safePoint :: "rbbiData \<Rightarrow> byte list \<Rightarrow> int \<Rightarrow> int option" where
  "safePoint d t q =
     (case safePrevious (engineAt d t q) q of
        Some (Inr (pos, True, r')) \<Rightarrow> Some pos
      | _ \<Rightarrow> None)"

text \<open>
  The reverse table yields safe restart points for the text up to \<open>start\<close>: for every
  position \<open>q\<close> from 1 to \<open>start\<close>, the first position that \<open>Next\<close> returns from the
  point where \<open>safePrevious\<close> stops is a break position of the text. (The point itself
  need not be one.)
\<close>

definition safeRestarts :: "rbbiData \<Rightarrow> byte list \<Rightarrow> int \<Rightarrow> bool" where
  "safeRestarts d t start \<longleftrightarrow>
     (\<forall>q\<in>set [1..start].
        case safePoint d t q of
          None \<Rightarrow> True
        | Some s \<Rightarrow> (case nextBreak d t s of None \<Rightarrow> True | Some b \<Rightarrow> isBreak d t b))"




section \<open>Previous on rules without lookahead\<close>





section \<open>Claims about Previous\<close>


text \<open>
  These rules have no lookahead rows; what they lack is a reverse table that yields safe
  restart points: \<open>safePrevious\<close> stops at 1 for the position 2, and \<open>Next\<close> from 1
  returns 3.
\<close>

lemma pairData_restarts:
  "noLookahead (forwardTable pairData) \<and>
   \<not> safeRestarts pairData [0x61, 0x62, 0x63, 0x64] 4 \<and>
   safePoint pairData [0x61, 0x62, 0x63, 0x64] 2 = Some 1 \<and>
   nextBreak pairData [0x61, 0x62, 0x63, 0x64] 1 = Some 3"
  by code_simp



end
